theory Spec2Isabelle
  imports Complex_Main "HOL-Library.Char_ord" "HOL-Library.List_Lexorder" "HOL-Library.Sublist"
begin

section \<open>Strings and the UTF-8 byte comparator\<close>

text \<open>
  A JavaScript string is represented by the byte sequence of its UTF-8 encoding, one
  \<^typ>\<open>char\<close> per byte. The separators and drive letters the program inspects are ASCII,
  so \<open>charAt\<close>, \<open>indexOf(p) === 0\<close> and \<open>endsWith\<close> against them read the same bytes as
  they read UTF-16 code units in the well-formed strings that file names and object keys are.
\<close>

text \<open>\<open>s.charAt(i)\<close>: the one-character string at index \<open>i\<close>, the empty string out of range.\<close>

definition charAt :: "string \<Rightarrow> nat \<Rightarrow> string" where
  "charAt s i = (if i < length s then [s ! i] else [])"

text \<open>\<open>s.charAt(s.length - 1)\<close>: index \<open>-1\<close> of the empty string is out of range.\<close>

definition lastCharAt :: "string \<Rightarrow> string" where
  "lastCharAt s = (if s = [] then [] else charAt s (length s - 1))"

text \<open>\<open>xs[i]\<close> on an array: \<open>undefined\<close> out of range.\<close>

definition arrayGet :: "'a list \<Rightarrow> nat \<Rightarrow> 'a option" where
  "arrayGet xs i = (if i < length xs then Some (xs ! i) else None)"

text \<open>
  \<open>Buffer.compare(Buffer.from(a, 'utf-8'), Buffer.from(b, 'utf-8'))\<close>: bytes are compared as
  unsigned numbers from the left; a proper prefix is smaller.
\<close>

fun compareStringsUtf8BinaryOrder :: "string \<Rightarrow> string \<Rightarrow> int" where
  "compareStringsUtf8BinaryOrder [] [] = 0"
| "compareStringsUtf8BinaryOrder [] (y # ys) = - 1"
| "compareStringsUtf8BinaryOrder (x # xs) [] = 1"
| "compareStringsUtf8BinaryOrder (x # xs) (y # ys) =
     (if (of_char x :: nat) < of_char y then - 1
      else if (of_char y :: nat) < of_char x then 1
      else compareStringsUtf8BinaryOrder xs ys)"

section \<open>Key and path helpers (utils/keyAndPathUtils)\<close>

text \<open>\<open>s3Key.indexOf(curDir) === 0\<close>.\<close>

definition keyBelongsInCurrentDirectory :: "string \<Rightarrow> string \<Rightarrow> bool" where
  "keyBelongsInCurrentDirectory curDir s3Key = prefix curDir s3Key"

text \<open>The parameter \<open>win32\<close> stands for \<open>os.platform() === "win32"\<close>.\<close>

definition checkKeyOrPathIsDirectory :: "bool \<Rightarrow> string \<Rightarrow> bool" where
  "checkKeyOrPathIsDirectory win32 k =
     (let c = lastCharAt k in
      if win32 then c = [CHR 0x5C] \<or> c = ''/'' else c = ''/'')"

section \<open>The reconciler (sync)\<close>

record Stats =
  mtime :: int
  fsize :: int

record DirEntry =
  relativePath :: string
  stats :: Stats

text \<open>
  An object of the remote listing. \<open>LastModified\<close> is the instant in milliseconds
  (\<open>getTime()\<close>); the listing carries it and \<open>Size\<close> for every object. An absent \<open>Key\<close> is
  the empty string: the program treats both alike.
\<close>

record S3Object =
  Key :: string
  LastModified :: int
  Size :: int

text \<open>\<open>S3ListObj = MirrorS3Object & _Object\<close>: the listed object with its transformed key.\<close>

record S3ListObj = S3Object +
  transformedKey :: string

text \<open>
  The reconciler acts by calling the file-system operations \<open>writeS3Object\<close>, \<open>unlinkFile\<close>
  and \<open>rmdirRecursive\<close>, each of which submits one task to the queue. The calls are recorded
  in the order they are made.
\<close>

datatype FsCall =
    WriteS3Object string string
  | UnlinkFile string
  | RmdirRecursive string

record SyncState =
  dirEntPos :: nat
  s3ListPos :: nat
  dirEntry :: "DirEntry option"
  s3ListObj :: "S3ListObj option"
  calls :: "FsCall list"

definition getNextDirEntry :: "DirEntry list \<Rightarrow> SyncState \<Rightarrow> SyncState" where
  "getNextDirEntry dirEntries s =
     s\<lparr>dirEntry := arrayGet dirEntries (dirEntPos s), dirEntPos := Suc (dirEntPos s)\<rparr>"

definition getNextS3ListObj :: "S3ListObj list \<Rightarrow> SyncState \<Rightarrow> SyncState" where
  "getNextS3ListObj s3List s =
     s\<lparr>s3ListObj := arrayGet s3List (s3ListPos s), s3ListPos := Suc (s3ListPos s)\<rparr>"

text \<open>
  The loop of \<open>getNextDirEntryAfterRemovedDir\<close>: read entries from position \<open>pos\<close> until one
  is \<open>undefined\<close> or does not start with \<open>removedDir\<close>; the result is that entry and the
  position after it.
\<close>

function skipRemovedDir :: "DirEntry list \<Rightarrow> string \<Rightarrow> nat \<Rightarrow> DirEntry option \<times> nat" where
  "skipRemovedDir dirEntries removedDir pos =
     (case arrayGet dirEntries pos of
        None \<Rightarrow> (None, Suc pos)
      | Some curVal \<Rightarrow>
          if prefix removedDir (relativePath curVal)
          then skipRemovedDir dirEntries removedDir (Suc pos)
          else (Some curVal, Suc pos))"
  by pat_completeness auto
termination
  by (relation "measure (\<lambda>(dirEntries, removedDir, pos). length dirEntries - pos)")
     (auto simp: arrayGet_def split: if_splits)

declare skipRemovedDir.simps [simp del]

definition getNextDirEntryAfterRemovedDir :: "DirEntry list \<Rightarrow> string \<Rightarrow> SyncState \<Rightarrow> SyncState" where
  "getNextDirEntryAfterRemovedDir dirEntries removedDir s =
     (let (curVal, pos) = skipRemovedDir dirEntries removedDir (dirEntPos s)
      in s\<lparr>dirEntry := curVal, dirEntPos := pos\<rparr>)"

definition submitCall :: "FsCall \<Rightarrow> SyncState \<Rightarrow> SyncState" where
  "submitCall c s = s\<lparr>calls := calls s @ [c]\<rparr>"

text \<open>One pass through the body of the \<open>while\<close> loop of \<open>sync\<close>.\<close>

definition syncIteration ::
  "bool \<Rightarrow> bool \<Rightarrow> DirEntry list \<Rightarrow> S3ListObj list \<Rightarrow> SyncState \<Rightarrow> SyncState" where
  "syncIteration win32 remove dirEntries s3List s =
     (case (dirEntry s, s3ListObj s) of
        (Some d, Some r) \<Rightarrow>
          (let c = compareStringsUtf8BinaryOrder (relativePath d) (transformedKey r) in
           if c = - 1 then
             (if remove then
                (if checkKeyOrPathIsDirectory win32 (relativePath d) \<and>
                    \<not> keyBelongsInCurrentDirectory (relativePath d) (transformedKey r)
                 then getNextDirEntryAfterRemovedDir dirEntries (relativePath d)
                        (submitCall (RmdirRecursive (relativePath d)) s)
                 else if \<not> checkKeyOrPathIsDirectory win32 (relativePath d)
                 then getNextDirEntry dirEntries (submitCall (UnlinkFile (relativePath d)) s)
                 else getNextDirEntry dirEntries s)
              else getNextDirEntry dirEntries s)
           else if c = 0 then
             getNextS3ListObj s3List (getNextDirEntry dirEntries
               (if \<not> checkKeyOrPathIsDirectory win32 (relativePath d) \<and>
                   (LastModified r > mtime (stats d) \<or> Size r \<noteq> fsize (stats d))
                then submitCall (WriteS3Object (transformedKey r) (Key r)) s
                else s))
           else
             getNextS3ListObj s3List (submitCall (WriteS3Object (transformedKey r) (Key r)) s))
      | (Some d, None) \<Rightarrow>
          (if remove then
             (if checkKeyOrPathIsDirectory win32 (relativePath d)
              then getNextDirEntryAfterRemovedDir dirEntries (relativePath d)
                     (submitCall (RmdirRecursive (relativePath d)) s)
              else getNextDirEntry dirEntries (submitCall (UnlinkFile (relativePath d)) s))
           else getNextDirEntry dirEntries s)
      | (None, Some r) \<Rightarrow>
          getNextS3ListObj s3List (submitCall (WriteS3Object (transformedKey r) (Key r)) s)
      | (None, None) \<Rightarrow> s)"

text \<open>The state before the loop: both cursors have read their first element.\<close>

definition syncStart :: "DirEntry list \<Rightarrow> S3ListObj list \<Rightarrow> SyncState" where
  "syncStart dirEntries s3List =
     getNextDirEntry dirEntries (getNextS3ListObj s3List
       \<lparr>dirEntPos = 0, s3ListPos = 0, dirEntry = None, s3ListObj = None, calls = []\<rparr>)"

text \<open>The states a reconciliation run passes through at the head of its loop.\<close>

inductive syncReaches ::
  "bool \<Rightarrow> bool \<Rightarrow> DirEntry list \<Rightarrow> S3ListObj list \<Rightarrow> SyncState \<Rightarrow> bool"
  for win32 remove dirEntries s3List where
    start: "syncReaches win32 remove dirEntries s3List (syncStart dirEntries s3List)"
  | iterate: "syncReaches win32 remove dirEntries s3List s \<Longrightarrow>
              dirEntry s \<noteq> None \<or> s3ListObj s \<noteq> None \<Longrightarrow>
              syncReaches win32 remove dirEntries s3List
                (syncIteration win32 remove dirEntries s3List s)"

subsection \<open>The loop terminates\<close>

text \<open>
  Every pass moves at least one cursor that still has an element; the measure counts what the
  two cursors have left.
\<close>

definition syncMeasure :: "DirEntry list \<Rightarrow> S3ListObj list \<Rightarrow> SyncState \<Rightarrow> nat" where
  "syncMeasure dirEntries s3List s =
     (case dirEntry s of None \<Rightarrow> 0 | Some d \<Rightarrow> Suc (Suc (length dirEntries) - dirEntPos s)) +
     (case s3ListObj s of None \<Rightarrow> 0 | Some r \<Rightarrow> Suc (Suc (length s3List) - s3ListPos s))"

lemma skipRemovedDir_result:
  "skipRemovedDir es d pos = (r, p) \<Longrightarrow>
     pos < p \<and> r = arrayGet es (p - 1) \<and>
     (\<forall>i. pos \<le> i \<and> i < p - 1 \<longrightarrow> i < length es \<and> prefix d (relativePath (es ! i))) \<and>
     (\<forall>e. r = Some e \<longrightarrow> \<not> prefix d (relativePath e))"
proof (induction es d pos arbitrary: r p rule: skipRemovedDir.induct)
  case (1 es d pos)
  show ?case
  proof (cases "arrayGet es pos")
    case None
    with "1.prems" show ?thesis
      by (auto simp: skipRemovedDir.simps [of es d pos])
  next
    case (Some e)
    show ?thesis
    proof (cases "prefix d (relativePath e)")
      case True
      with Some "1.prems" have rec: "skipRemovedDir es d (Suc pos) = (r, p)"
        by (simp add: skipRemovedDir.simps [of es d pos])
      from "1.IH" [OF Some True rec]
      have ih: "Suc pos < p" "r = arrayGet es (p - 1)"
        "\<forall>i. Suc pos \<le> i \<and> i < p - 1 \<longrightarrow> i < length es \<and> prefix d (relativePath (es ! i))"
        "\<forall>e. r = Some e \<longrightarrow> \<not> prefix d (relativePath e)"
        by auto
      have here: "pos < length es \<and> prefix d (relativePath (es ! pos))"
        using Some True by (auto simp: arrayGet_def split: if_splits)
      have "\<forall>i. pos \<le> i \<and> i < p - 1 \<longrightarrow> i < length es \<and> prefix d (relativePath (es ! i))"
      proof (intro allI impI)
        fix i assume a: "pos \<le> i \<and> i < p - 1"
        show "i < length es \<and> prefix d (relativePath (es ! i))"
        proof (cases "i = pos")
          case True
          with here show ?thesis by simp
        next
          case False
          with a have "Suc pos \<le> i \<and> i < p - 1" by simp
          with ih(3) show ?thesis by blast
        qed
      qed
      with ih show ?thesis by simp
    next
      case False
      with Some "1.prems" show ?thesis
        by (auto simp: skipRemovedDir.simps [of es d pos])
    qed
  qed
qed

lemma getNextDirEntry_measure:
  "dirEntry s = Some d \<Longrightarrow> s3ListObj (t::SyncState) = s3ListObj s \<Longrightarrow> s3ListPos t = s3ListPos s \<Longrightarrow>
   dirEntPos t = dirEntPos s \<Longrightarrow>
   syncMeasure es rs (getNextDirEntry es t) < syncMeasure es rs s"
  by (auto simp: syncMeasure_def getNextDirEntry_def arrayGet_def split: option.splits)

lemma getNextDirEntryAfterRemovedDir_measure:
  assumes "dirEntry s = Some d" "s3ListObj (t::SyncState) = s3ListObj s" "s3ListPos t = s3ListPos s"
   "dirEntPos t = dirEntPos s"
  shows "syncMeasure es rs (getNextDirEntryAfterRemovedDir es p t) < syncMeasure es rs s"
proof -
  obtain e n where en: "skipRemovedDir es p (dirEntPos t) = (e, n)"
    by (cases "skipRemovedDir es p (dirEntPos t)")
  from skipRemovedDir_result [OF en]
  have lt: "dirEntPos t < n" and e: "e = arrayGet es (n - 1)" by simp_all
  have "e \<noteq> None \<Longrightarrow> n \<le> length es"
    using e lt by (auto simp: arrayGet_def split: if_splits)
  with lt assms en show ?thesis
    by (cases e) (auto simp: syncMeasure_def getNextDirEntryAfterRemovedDir_def split: option.splits)
qed

lemma syncIteration_measure:
  assumes "dirEntry s \<noteq> None \<or> s3ListObj s \<noteq> None"
  shows "syncMeasure es rs (syncIteration win32 remove es rs s) < syncMeasure es rs s"
proof (cases "dirEntry s")
  case None
  with assms obtain r where r: "s3ListObj s = Some r" by auto
  with None show ?thesis
    by (auto simp: syncIteration_def syncMeasure_def getNextS3ListObj_def submitCall_def arrayGet_def)
next
  case (Some d)
  note d = Some
  show ?thesis
  proof (cases "s3ListObj s")
    case None
    with d getNextDirEntry_measure [OF d, of s es rs]
      getNextDirEntry_measure [OF d, of "submitCall (UnlinkFile (relativePath d)) s" es rs]
      getNextDirEntryAfterRemovedDir_measure [OF d, of "submitCall (RmdirRecursive (relativePath d)) s" es rs "relativePath d"]
    show ?thesis
      by (simp add: syncIteration_def submitCall_def)
  next
    case (Some r)
    have eq: "syncMeasure es rs (getNextS3ListObj rs (getNextDirEntry es t)) < syncMeasure es rs s"
      if "dirEntPos t = dirEntPos s" "s3ListPos t = s3ListPos s" for t :: SyncState
      using d Some that
      by (auto simp: syncMeasure_def getNextS3ListObj_def getNextDirEntry_def arrayGet_def
            split: option.splits)
    have gt: "syncMeasure es rs (getNextS3ListObj rs t) < syncMeasure es rs s"
      if "dirEntPos t = dirEntPos s" "s3ListPos t = s3ListPos s" "dirEntry t = dirEntry s" for t :: SyncState
      using d Some that
      by (auto simp: syncMeasure_def getNextS3ListObj_def arrayGet_def split: option.splits)
    from d Some getNextDirEntry_measure [OF d, of s es rs]
      getNextDirEntry_measure [OF d, of "submitCall (UnlinkFile (relativePath d)) s" es rs]
      getNextDirEntryAfterRemovedDir_measure [OF d, of "submitCall (RmdirRecursive (relativePath d)) s" es rs "relativePath d"]
      eq [of s] eq [of "submitCall (WriteS3Object (transformedKey r) (Key r)) s"]
      gt [of "submitCall (WriteS3Object (transformedKey r) (Key r)) s"]
    show ?thesis
      by (simp add: syncIteration_def submitCall_def Let_def)
  qed
qed

text \<open>The \<open>while\<close> loop of \<open>sync\<close> and the calls of a whole run.\<close>

function syncLoop ::
  "bool \<Rightarrow> bool \<Rightarrow> DirEntry list \<Rightarrow> S3ListObj list \<Rightarrow> SyncState \<Rightarrow> SyncState" where
  "syncLoop win32 remove dirEntries s3List s =
     (if dirEntry s \<noteq> None \<or> s3ListObj s \<noteq> None
      then syncLoop win32 remove dirEntries s3List (syncIteration win32 remove dirEntries s3List s)
      else s)"
  by pat_completeness auto
termination
  by (relation "measure (\<lambda>(win32, remove, dirEntries, s3List, s). syncMeasure dirEntries s3List s)")
     (auto simp: syncIteration_measure)

definition sync :: "bool \<Rightarrow> bool \<Rightarrow> DirEntry list \<Rightarrow> S3ListObj list \<Rightarrow> FsCall list" where
  "sync win32 remove dirEntries s3List =
     calls (syncLoop win32 remove dirEntries s3List (syncStart dirEntries s3List))"

declare syncLoop.simps [simp del]

section \<open>Key transformers (utils/transformers, s3ObjectOps)\<close>

text \<open>
  The condition of the \<open>while\<close> loop of \<open>removeRootDirCharsFromS3Key\<close> at \<open>startPos\<close>,
  together with the value it leaves in \<open>windowsTestRes\<close>. The comparisons with \<open>'A'\<close> and
  \<open>'Z'\<close> are string comparisons of \<open>charAt\<close>'s result, which is empty out of range.
\<close>

definition rootCharsAt :: "string \<Rightarrow> nat \<Rightarrow> bool \<times> bool" where
  "rootCharsAt key startPos =
     (if charAt key startPos = ''/'' \<or> charAt key startPos = [CHR 0x5C] then (True, False)
      else if int (length key) - int startPos \<ge> 2 \<and>
              charAt key startPos \<ge> ''A'' \<and>
              charAt key startPos \<le> ''Z'' \<and>
              charAt key (startPos + 1) = '':'' \<and>
              (charAt key (startPos + 2) = [CHR 0x5C] \<or> charAt key (startPos + 2) = ''/'')
      then (True, True)
      else (False, False))"

function removeRootLoop :: "string \<Rightarrow> nat \<Rightarrow> nat" where
  "removeRootLoop key startPos =
     (case rootCharsAt key startPos of
        (True, windowsTestRes) \<Rightarrow>
          removeRootLoop key (if windowsTestRes then startPos + 1 + 2 else startPos + 1)
      | (False, _) \<Rightarrow> startPos)"
  by pat_completeness auto
termination
  by (relation "measure (\<lambda>(key, startPos). length key - startPos)")
     (auto simp: rootCharsAt_def charAt_def split: if_splits)

declare removeRootLoop.simps [simp del]

text \<open>\<open>key.substr(startPos)\<close> after the loop.\<close>

definition removeRootDirCharsFromS3Key :: "string \<Rightarrow> string" where
  "removeRootDirCharsFromS3Key key = drop (removeRootLoop key 0) key"

text \<open>
  \<open>replaceKeyDirCharsWithSystemSep\<close>: on \<open>win32\<close> every \<open>/\<close> becomes a backslash, elsewhere
  every backslash becomes \<open>/\<close>.
\<close>

definition replaceKeyDirCharsWithSystemSep :: "bool \<Rightarrow> string \<Rightarrow> string" where
  "replaceKeyDirCharsWithSystemSep win32 str =
     (if win32 then map (\<lambda>c. if c = CHR ''/'' then CHR 0x5C else c) str
      else map (\<lambda>c. if c = CHR 0x5C then CHR ''/'' else c) str)"

text \<open>\<open>applyTransformersToKey\<close>: the transformers are applied from left to right.\<close>

definition applyTransformersToKey :: "string \<Rightarrow> (string \<Rightarrow> string) list \<Rightarrow> string" where
  "applyTransformersToKey key transformers = foldl (\<lambda>transKey t. t transKey) key transformers"

text \<open>
  What the comment of the transformer calls root characters, read off a list: a separator,
  or an upper-case drive letter followed by a colon and a separator. \<open>rootPrefixes p\<close>
  says that \<open>p\<close> is a sequence of such prefixes.
\<close>

fun rootPrefixLength :: "string \<Rightarrow> nat" where
  "rootPrefixLength [] = 0"
| "rootPrefixLength (c # cs) =
     (if c = CHR ''/'' \<or> c = CHR 0x5C then 1
      else (case cs of
              colon # sep # rest \<Rightarrow>
                if CHR ''A'' \<le> c \<and> c \<le> CHR ''Z'' \<and> colon = CHR '':'' \<and>
                   (sep = CHR 0x5C \<or> sep = CHR ''/'')
                then 3 else 0
            | _ \<Rightarrow> 0))"

inductive rootPrefixes :: "string \<Rightarrow> bool" where
    none: "rootPrefixes []"
  | more: "rootPrefixLength p = length p \<Longrightarrow> p \<noteq> [] \<Longrightarrow> rootPrefixes q \<Longrightarrow>
           rootPrefixes (p @ q)"


section \<open>Remote list enumeration (utils/s3Utils)\<close>

text \<open>
  A JavaScript object used as a map from strings is an association list of its own properties
  in insertion order: assigning to a present key replaces the value in place, assigning to a
  new key appends. (The enumeration order of integer-like property names is not modelled;
  \<open>getS3List\<close> sorts what it enumerates and the queue depends on no order.)
\<close>

fun objectSet :: "(string \<times> 'v) list \<Rightarrow> string \<Rightarrow> 'v \<Rightarrow> (string \<times> 'v) list" where
  "objectSet [] k v = [(k, v)]"
| "objectSet (kv # kvs) k v = (if fst kv = k then (k, v) # kvs else kv # objectSet kvs k v)"

definition objectDelete :: "(string \<times> 'v) list \<Rightarrow> string \<Rightarrow> (string \<times> 'v) list" where
  "objectDelete m k = filter (\<lambda>kv. fst kv \<noteq> k) m"

text \<open>
  The maps of this program are object literals \<open>{}\<close>, which inherit the members of
  \<open>Object.prototype\<close>. Reading a name the object does not own gives the inherited member when
  the name is one of these, and \<open>undefined\<close> otherwise. An inherited member is a function (or,
  for \<open>__proto__\<close>, the prototype itself): it is not \<open>undefined\<close>, and its fields \<open>expiration\<close>,
  \<open>id\<close> and \<open>Key\<close> are.
\<close>

definition objectPrototypeNames :: "string list" where
  "objectPrototypeNames =
     [''constructor'', ''__defineGetter__'', ''__defineSetter__'', ''hasOwnProperty'',
      ''__lookupGetter__'', ''__lookupSetter__'', ''isPrototypeOf'', ''propertyIsEnumerable'',
      ''toString'', ''valueOf'', ''__proto__'', ''toLocaleString'']"

datatype 'v PropertyValue = Undefined | Inherited | Own 'v

definition objectGet :: "(string \<times> 'v) list \<Rightarrow> string \<Rightarrow> 'v PropertyValue" where
  "objectGet m k =
     (case map_of m k of
        Some v \<Rightarrow> Own v
      | None \<Rightarrow> if k \<in> set objectPrototypeNames then Inherited else Undefined)"

text \<open>
  \<open>Array.prototype.sort\<close> with a comparator is a stable sort: an insertion sort that puts an
  element before the first one it does not compare greater than.
\<close>

fun insertBy :: "('a \<Rightarrow> 'a \<Rightarrow> int) \<Rightarrow> 'a \<Rightarrow> 'a list \<Rightarrow> 'a list" where
  "insertBy cmp x [] = [x]"
| "insertBy cmp x (y # ys) = (if cmp x y \<le> 0 then x # y # ys else y # insertBy cmp x ys)"

definition arraySort :: "('a \<Rightarrow> 'a \<Rightarrow> int) \<Rightarrow> 'a list \<Rightarrow> 'a list" where
  "arraySort cmp xs = foldr (insertBy cmp) xs []"

record ListObjectsV2Output =
  Contents :: "S3Object list option"
  NextContinuationToken :: "string option"

text \<open>
  The options \<open>getS3List\<close> reads itself; bucket, prefix and page size go to the client. An
  absent transformer array is the empty list.
\<close>

record S3ListOptions =
  listSuffix :: "string option"
  s3KeyTransformers :: "(string \<Rightarrow> string) list"

datatype Error =
    RequestFailed
  | KeyWasEmpty
  | RootDirectoryRemoval string
  | UnsupportedEventVersion
  | TaskThrew
  | ArgumentNotAString

text \<open>\<open>setTransformedKey\<close>: throws when the key is undefined, null or empty.\<close>

definition setTransformedKey :: "S3Object \<Rightarrow> (string \<Rightarrow> string) list \<Rightarrow> Error + S3ListObj" where
  "setTransformedKey obj transformers =
     (if Key obj = [] then Inl KeyWasEmpty
      else Inr \<lparr>Key = Key obj, LastModified = LastModified obj, Size = Size obj,
                transformedKey = applyTransformersToKey (Key obj) transformers\<rparr>)"

text \<open>
  The map \<open>allBucketKeys\<close> of \<open>getS3List\<close>: its own properties and, once a transformed key
  \<open>__proto__\<close> has been assigned, the listed object that the assignment has made its
  prototype (the assignment calls the setter of \<open>Object.prototype\<close> and adds no property).
\<close>

record BucketKeys =
  ownProperties :: "(string \<times> S3ListObj) list"
  assignedPrototype :: "S3ListObj option"

definition emptyBucketKeys :: BucketKeys where
  "emptyBucketKeys = \<lparr>ownProperties = [], assignedPrototype = None\<rparr>"

text \<open>
  The body of the \<open>for\<close> loop over the \<open>Contents\<close> of one page. Everything after the suffix
  filter runs in a \<open>try\<close> whose \<open>catch\<close> ignores the key. Once the map owns a property
  \<open>hasOwnProperty\<close>, the call \<open>allBucketKeys.hasOwnProperty(...)\<close> finds a listed object where
  the method was and throws, so every later key is ignored.
\<close>

definition addListedObject :: "S3ListOptions \<Rightarrow> BucketKeys \<Rightarrow> S3Object \<Rightarrow> BucketKeys" where
  "addListedObject options allBucketKeys obj =
     (if (case listSuffix options of None \<Rightarrow> False | Some sfx \<Rightarrow> sfx \<noteq> [] \<and> \<not> suffix sfx (Key obj))
      then allBucketKeys
      else (case setTransformedKey obj (s3KeyTransformers options) of
              Inl err \<Rightarrow> allBucketKeys
            | Inr s3Obj \<Rightarrow>
                if map_of (ownProperties allBucketKeys) ''hasOwnProperty'' \<noteq> None
                then allBucketKeys
                else if transformedKey s3Obj = [] \<or> transformedKey s3Obj = ''/''
                then allBucketKeys
                else if transformedKey s3Obj = ''__proto__''
                then allBucketKeys\<lparr>assignedPrototype := Some s3Obj\<rparr>
                else allBucketKeys\<lparr>ownProperties :=
                       objectSet (ownProperties allBucketKeys) (transformedKey s3Obj) s3Obj\<rparr>))"

text \<open>
  The \<open>while\<close> loop over the pages. The client is the list of its successive responses; a
  request with no response left is a rejected request. A response without \<open>Contents\<close> ends the
  loop, a response whose continuation token is absent or empty is the last one.
\<close>

fun listPages ::
  "S3ListOptions \<Rightarrow> ListObjectsV2Output list \<Rightarrow> BucketKeys \<Rightarrow> Error + BucketKeys" where
  "listPages options [] allBucketKeys = Inl RequestFailed"
| "listPages options (resp # later) allBucketKeys =
     (case Contents resp of
        None \<Rightarrow> Inr allBucketKeys
      | Some cs \<Rightarrow>
          (let allBucketKeys' = foldl (addListedObject options) allBucketKeys cs in
           if (case NextContinuationToken resp of None \<Rightarrow> False | Some token \<Rightarrow> token \<noteq> [])
           then listPages options later allBucketKeys'
           else Inr allBucketKeys'))"

text \<open>
  What \<open>for (let k in allBucketKeys)\<close> enumerates after the own properties: the fields of an
  assigned prototype that no own property hides. The listed objects carry \<open>Key\<close>,
  \<open>LastModified\<close>, \<open>Size\<close> and \<open>transformedKey\<close> here.
\<close>

definition inheritedNames :: "BucketKeys \<Rightarrow> string list" where
  "inheritedNames allBucketKeys =
     (case assignedPrototype allBucketKeys of
        None \<Rightarrow> []
      | Some s3Obj \<Rightarrow>
          filter (\<lambda>name. map_of (ownProperties allBucketKeys) name = None)
            [''Key'', ''LastModified'', ''Size'', ''transformedKey''])"

text \<open>
  The end of \<open>getS3List\<close>: the enumerated values are pushed to an array, which is sorted by
  \<open>Key\<close>. An inherited name puts a string, a date or a number in the array, next to at least
  one other element; its \<open>Key\<close> is \<open>undefined\<close>, and the comparator throws on it.
\<close>

definition getS3List :: "S3ListOptions \<Rightarrow> ListObjectsV2Output list \<Rightarrow> Error + S3ListObj list" where
  "getS3List options responses =
     (case listPages options responses emptyBucketKeys of
        Inl err \<Rightarrow> Inl err
      | Inr allBucketKeys \<Rightarrow>
          if inheritedNames allBucketKeys \<noteq> [] then Inl ArgumentNotAString
          else Inr (arraySort (\<lambda>a b. compareStringsUtf8BinaryOrder (Key a) (Key b))
                      (map snd (ownProperties allBucketKeys))))"

section \<open>The asynchronous operation queue (AsyncOpQueue)\<close>

text \<open>
  A task is a function the queue calls with a completion callback. The queue never looks
  inside it, so a task is represented by a label of type \<open>'t\<close> and by how \<open>submit\<close> or
  \<open>submitPromiseTask\<close> wrapped it: \<open>Direct\<close> is the caller's own function, \<open>ThenOnly\<close> is
  \<open>promiseTask().then(onComplete)\<close> and \<open>ThenCatch\<close> adds \<open>.catch(onComplete)\<close>.
\<close>

datatype TaskWrapper = Direct | ThenOnly | ThenCatch

record 't QueueItem =
  itemKey :: string
  itemTask :: 't
  itemWrapper :: TaskWrapper
  runTimeout :: "int option"

record RunningTask =
  expiration :: "int option"
  runningId :: nat

text \<open>
  What a task does while the dispatch loop calls it: it returns, it calls its completion
  callback before returning, it throws, or it calls the callback and then throws. The tasks
  of this program do not call the methods of the queue during their call.
\<close>

datatype SyncBehaviour = Returns | CallsOnComplete | Throws | CallsOnCompleteThenThrows

text \<open>
  The fields of the class, the linked list from \<open>queueHead\<close> to \<open>queueTail\<close> as a list. The
  last six fields are not in the source: \<open>runScheduled\<close> and \<open>reapScheduled\<close> say whether the
  \<open>setImmediate\<close> of \<open>run\<close> and the \<open>setTimeout\<close> of \<open>reap\<close> are pending, \<open>stopTimerArmed\<close>
  the same for the timer of \<open>stop\<close>, \<open>clockReads\<close> counts the calls of \<open>Date.now()\<close>,
  \<open>started\<close> lists the tasks the loop has called with their run ids, \<open>pending\<close> the started
  tasks whose callback may still be called, and \<open>peakRunning\<close> is the largest size the
  running-task table has had.
\<close>

record 't AsyncOpQueue =
  maxConcurrency :: real
  defaultTaskRunTimeoutMillis :: "int option"
  reaperIntervalMillis :: int
  runningTasks :: "(string \<times> RunningTask) list"
  runCount :: int
  catchErrors :: bool
  queueItems :: "'t QueueItem list"
  queueSize :: int
  runId :: nat
  shutdown :: bool
  shutdownImmediately :: bool
  runScheduled :: bool
  reapScheduled :: bool
  stopTimerArmed :: bool
  clockReads :: nat
  started :: "(nat \<times> 't QueueItem) list"
  pending :: "(nat \<times> 't QueueItem) list"
  peakRunning :: nat

record AsyncOpQueueOptions =
  optMaxConcurrency :: "real option"
  optDefaultTaskRunTimeoutMillis :: "int option"
  optTaskReaperIntervalMillis :: "int option"
  optCatchErrors :: "bool option"

text \<open>
  \<open>x || d\<close> on an optional number: the default replaces \<open>undefined\<close> and \<open>0\<close>. Every other
  number is kept, a negative or a fractional one too. The cap \<open>maxConcurrency\<close> is a real
  number (\<open>NaN\<close>, which the default also replaces, and the infinities are left out).
\<close>

definition orDefault :: "'a::zero option \<Rightarrow> 'a \<Rightarrow> 'a" where
  "orDefault x d = (case x of None \<Rightarrow> d | Some v \<Rightarrow> if v = 0 then d else v)"

text \<open>The constructor: it schedules the first \<open>run\<close> and, through \<open>reap\<close>, the first sweep.\<close>

definition newAsyncOpQueue :: "AsyncOpQueueOptions \<Rightarrow> 't AsyncOpQueue" where
  "newAsyncOpQueue options =
     \<lparr>maxConcurrency = orDefault (optMaxConcurrency options) 300,
      defaultTaskRunTimeoutMillis = optDefaultTaskRunTimeoutMillis options,
      reaperIntervalMillis = orDefault (optTaskReaperIntervalMillis options) 10,
      runningTasks = [],
      runCount = 0,
      catchErrors = (case optCatchErrors options of None \<Rightarrow> False | Some b \<Rightarrow> b),
      queueItems = [],
      queueSize = 0,
      runId = 0,
      shutdown = False,
      shutdownImmediately = False,
      runScheduled = True,
      reapScheduled = (orDefault (optTaskReaperIntervalMillis options) 10 > 0),
      stopTimerArmed = False,
      clockReads = 0,
      started = [],
      pending = [],
      peakRunning = 0\<rparr>"

text \<open>\<open>Date.now()\<close>: the next reading of the clock.\<close>

definition dateNow :: "(nat \<Rightarrow> int) \<Rightarrow> 't AsyncOpQueue \<Rightarrow> int \<times> 't AsyncOpQueue" where
  "dateNow clock q = (clock (clockReads q), q\<lparr>clockReads := Suc (clockReads q)\<rparr>)"

text \<open>
  \<open>submit\<close>, with the wrapper as a parameter. The default of \<open>runTimeout\<close> replaces an
  absent argument.
\<close>

definition submitWrapped ::
  "TaskWrapper \<Rightarrow> string \<Rightarrow> 't \<Rightarrow> int option \<Rightarrow> 't AsyncOpQueue \<Rightarrow> 't AsyncOpQueue" where
  "submitWrapped w k t timeoutArg q =
     (if \<not> shutdown q then
        q\<lparr>queueSize := queueSize q + 1,
          queueItems := queueItems q @
            [\<lparr>itemKey = k, itemTask = t, itemWrapper = w,
              runTimeout = (case timeoutArg of None \<Rightarrow> defaultTaskRunTimeoutMillis q
                            | Some ms \<Rightarrow> Some ms)\<rparr>]\<rparr>
      else q)"

definition submit :: "string \<Rightarrow> 't \<Rightarrow> int option \<Rightarrow> 't AsyncOpQueue \<Rightarrow> 't AsyncOpQueue" where
  "submit k t timeoutArg q = submitWrapped Direct k t timeoutArg q"

definition submitPromiseTask ::
  "string \<Rightarrow> 't \<Rightarrow> int option \<Rightarrow> 't AsyncOpQueue \<Rightarrow> 't AsyncOpQueue" where
  "submitPromiseTask k t timeoutArg q =
     (if catchErrors q then submitWrapped ThenCatch k t timeoutArg q
      else submitWrapped ThenOnly k t timeoutArg q)"

definition removeRunningTask :: "string \<Rightarrow> nat \<Rightarrow> 't AsyncOpQueue \<Rightarrow> 't AsyncOpQueue" where
  "removeRunningTask k i q =
     (case objectGet (runningTasks q) k of
        Own runningTask \<Rightarrow>
          if runningId runningTask = i
          then q\<lparr>runningTasks := objectDelete (runningTasks q) k, runCount := runCount q - 1\<rparr>
          else q
      | _ \<Rightarrow> q)"

text \<open>The sweep of the reaper over the keys of the running-task table.\<close>

fun reapKeys :: "int \<Rightarrow> string list \<Rightarrow> 't AsyncOpQueue \<Rightarrow> 't AsyncOpQueue" where
  "reapKeys currentTime [] q = q"
| "reapKeys currentTime (k # ks) q =
     reapKeys currentTime ks
       (case objectGet (runningTasks q) k of
          Own runningTask \<Rightarrow>
            (case expiration runningTask of
               None \<Rightarrow> q
             | Some ex \<Rightarrow>
                 if ex - currentTime \<le> 0 then removeRunningTask k (runningId runningTask) q
                 else q)
        | _ \<Rightarrow> q)"

text \<open>The timer callback of \<open>reap\<close>: one sweep, then \<open>reap\<close> again.\<close>

definition reapFires :: "(nat \<Rightarrow> int) \<Rightarrow> 't AsyncOpQueue \<Rightarrow> 't AsyncOpQueue" where
  "reapFires clock q =
     (if reapScheduled q then
        (let (currentTime, q1) = dateNow clock q;
             q2 = reapKeys currentTime (map fst (runningTasks q1)) q1
         in q2\<lparr>reapScheduled := (reaperIntervalMillis q2 > 0 \<and> \<not> shutdown q2)\<rparr>)
      else q)"

text \<open>
  The test of the dispatch loop on the head task: no running task for its key, or one whose
  expiration has passed. The clock is read only when the entry has an expiration. For a key
  that names a member of \<open>Object.prototype\<close> the table gives that member, which is not
  \<open>undefined\<close> and has no expiration: such a task is skipped in every pass.
\<close>

definition mayRun :: "(nat \<Rightarrow> int) \<Rightarrow> 't QueueItem \<Rightarrow> 't AsyncOpQueue \<Rightarrow> bool \<times> 't AsyncOpQueue" where
  "mayRun clock taskToRun q =
     (case objectGet (runningTasks q) (itemKey taskToRun) of
        Undefined \<Rightarrow> (True, q)
      | Inherited \<Rightarrow> (False, q)
      | Own runningTaskForKey \<Rightarrow>
          (case expiration runningTaskForKey of
             None \<Rightarrow> (False, q)
           | Some ex \<Rightarrow> (let (now, q1) = dateNow clock q in (ex - now \<le> 0, q1))))"

text \<open>The new run id and the entry of the running-task table, before the task is called.\<close>

definition registerRun :: "(nat \<Rightarrow> int) \<Rightarrow> 't QueueItem \<Rightarrow> 't AsyncOpQueue \<Rightarrow> nat \<times> 't AsyncOpQueue" where
  "registerRun clock taskToRun q =
     (let i = runId q;
          q1 = q\<lparr>runId := Suc i\<rparr>;
          (ex, q2) = (case runTimeout taskToRun of
                        None \<Rightarrow> (None, q1)
                      | Some ms \<Rightarrow> (let (now, q') = dateNow clock q1 in (Some (ms + now), q')));
          table = objectSet (runningTasks q2) (itemKey taskToRun) \<lparr>expiration = ex, runningId = i\<rparr>
      in (i, q2\<lparr>runningTasks := table,
              peakRunning := max (peakRunning q2) (length table),
              started := started q2 @ [(i, taskToRun)]\<rparr>))"

text \<open>
  Whether the call of a task calls the completion callback before it returns, and whether it
  throws. A promise task calls the callback only from \<open>then\<close> or \<open>catch\<close>, never during the call.
\<close>

definition calledDuringCall :: "TaskWrapper \<Rightarrow> SyncBehaviour \<Rightarrow> bool" where
  "calledDuringCall w b = (w = Direct \<and> (b = CallsOnComplete \<or> b = CallsOnCompleteThenThrows))"

definition threwDuringCall :: "SyncBehaviour \<Rightarrow> bool" where
  "threwDuringCall b = (b = Throws \<or> b = CallsOnCompleteThenThrows)"

text \<open>
  The body of the loop for a task that may run: the entry is made, the task is called, its
  completion callback removes the entry if the task calls it, and with \<open>catchErrors\<close> on so
  does the \<open>catch\<close> block. The result says whether an error left the loop uncaught; if
  none did, the counters are updated. \<open>behaviour\<close> gives what the task with a run id does
  during its call, \<open>hadNone\<close> is \<open>runningTaskForKey === undefined\<close>.
\<close>

definition callTask ::
  "(nat \<Rightarrow> int) \<Rightarrow> (nat \<Rightarrow> SyncBehaviour) \<Rightarrow> 't QueueItem \<Rightarrow> bool \<Rightarrow> 't AsyncOpQueue \<Rightarrow>
     bool \<times> 't AsyncOpQueue" where
  "callTask clock behaviour taskToRun hadNone q1 =
     (let (i, q2) = registerRun clock taskToRun q1;
          called = calledDuringCall (itemWrapper taskToRun) (behaviour i);
          threw = threwDuringCall (behaviour i);
          q3 = (if called then removeRunningTask (itemKey taskToRun) i q2 else q2)
      in if threw \<and> \<not> catchErrors q3 then (True, q3)
         else
           (let q4 = (if threw then removeRunningTask (itemKey taskToRun) i q3 else q3)
            in (False,
                q4\<lparr>queueSize := queueSize q4 - 1,
                   runCount := (if hadNone then runCount q4 + 1 else runCount q4),
                   pending := (if called \<or> threw then pending q4
                               else pending q4 @ [(i, taskToRun)])\<rparr>)))"

text \<open>
  The dispatch loop of \<open>run\<close>. \<open>todo\<close> is the list from \<open>taskToRun\<close> on, \<open>unrun\<close> the chain
  that ends in \<open>previousUnrunTask\<close>, \<open>ranNow\<close> the tasks started since the last skipped one,
  which \<open>previousUnrunTask.next\<close> still reaches. An uncaught error ends the callback on the
  spot, before the list is repaired and before \<open>run\<close> is scheduled again.
\<close>

fun runLoop ::
  "(nat \<Rightarrow> int) \<Rightarrow> (nat \<Rightarrow> SyncBehaviour) \<Rightarrow> 't QueueItem list \<Rightarrow> 't QueueItem list \<Rightarrow>
     't QueueItem list \<Rightarrow> 't AsyncOpQueue \<Rightarrow> 't AsyncOpQueue" where
  "runLoop clock behaviour [] unrun ranNow q =
     q\<lparr>queueItems := unrun,
       runScheduled := (if \<not> shutdown q then True
                        else \<not> shutdownImmediately q \<and> queueSize q > 0)\<rparr>"
| "runLoop clock behaviour (taskToRun # rest) unrun ranNow q =
     (if of_int (runCount q) < maxConcurrency q \<and> \<not> shutdownImmediately q then
        (let hadNone = (objectGet (runningTasks q) (itemKey taskToRun) = Undefined);
             (ok, q1) = mayRun clock taskToRun q
         in if ok then
              (case callTask clock behaviour taskToRun hadNone q1 of
                 (True, q3) \<Rightarrow>
                   q3\<lparr>queueItems := (if unrun = [] then taskToRun # rest
                                       else unrun @ ranNow @ taskToRun # rest),
                      runScheduled := False\<rparr>
               | (False, q5) \<Rightarrow> runLoop clock behaviour rest unrun (ranNow @ [taskToRun]) q5)
            else runLoop clock behaviour rest (unrun @ [taskToRun]) [] q1)
      else
        q\<lparr>queueItems := unrun @ taskToRun # rest,
          runScheduled := (if \<not> shutdown q then True
                           else \<not> shutdownImmediately q \<and> queueSize q > 0)\<rparr>)"

text \<open>The \<open>setImmediate\<close> callback of \<open>run\<close>.\<close>

definition runFires ::
  "(nat \<Rightarrow> int) \<Rightarrow> (nat \<Rightarrow> SyncBehaviour) \<Rightarrow> 't AsyncOpQueue \<Rightarrow> 't AsyncOpQueue" where
  "runFires clock behaviour q =
     (if runScheduled q then runLoop clock behaviour (queueItems q) [] [] q else q)"

text \<open>A started \<open>Direct\<close> task calls its completion callback after its call has returned.\<close>

definition completesLater :: "nat \<Rightarrow> 't AsyncOpQueue \<Rightarrow> 't AsyncOpQueue" where
  "completesLater i q =
     (case map_of (pending q) i of
        None \<Rightarrow> q
      | Some t \<Rightarrow>
          if itemWrapper t = Direct
          then removeRunningTask (itemKey t) i (q\<lparr>pending := filter (\<lambda>p. fst p \<noteq> i) (pending q)\<rparr>)
          else q)"

text \<open>
  The promise of a started promise task settles: \<open>then\<close> calls the completion callback when it
  resolves; when it rejects only the \<open>catch\<close> of \<open>ThenCatch\<close> does.
\<close>

definition promiseSettles :: "nat \<Rightarrow> bool \<Rightarrow> 't AsyncOpQueue \<Rightarrow> 't AsyncOpQueue" where
  "promiseSettles i resolved q =
     (case map_of (pending q) i of
        None \<Rightarrow> q
      | Some t \<Rightarrow>
          (let q1 = q\<lparr>pending := filter (\<lambda>p. fst p \<noteq> i) (pending q)\<rparr> in
           case itemWrapper t of
             Direct \<Rightarrow> q
           | ThenOnly \<Rightarrow> if resolved then removeRunningTask (itemKey t) i q1 else q1
           | ThenCatch \<Rightarrow> removeRunningTask (itemKey t) i q1))"

definition stop :: "bool \<Rightarrow> int option \<Rightarrow> 't AsyncOpQueue \<Rightarrow> 't AsyncOpQueue" where
  "stop immediately timeoutArg q =
     (if \<not> shutdown q then
        q\<lparr>shutdown := True, shutdownImmediately := immediately,
          stopTimerArmed := (timeoutArg \<noteq> None \<and> \<not> immediately)\<rparr>
      else q)"

definition stopTimerFires :: "'t AsyncOpQueue \<Rightarrow> 't AsyncOpQueue" where
  "stopTimerFires q =
     (if stopTimerArmed q then q\<lparr>shutdownImmediately := True, stopTimerArmed := False\<rparr> else q)"

text \<open>
  Everything that can happen to a queue: the calls of its public methods and the callbacks
  the event loop runs, one at a time.
\<close>

datatype 't QueueEvent =
    Submit string 't "int option"
  | SubmitPromiseTask string 't "int option"
  | RunFires
  | ReapFires
  | CompletesLater nat
  | PromiseSettles nat bool
  | Stop bool "int option"
  | StopTimerFires

fun queueStep ::
  "(nat \<Rightarrow> int) \<Rightarrow> (nat \<Rightarrow> SyncBehaviour) \<Rightarrow> 't AsyncOpQueue \<Rightarrow> 't QueueEvent \<Rightarrow> 't AsyncOpQueue" where
  "queueStep clock behaviour q (Submit k t timeoutArg) = submit k t timeoutArg q"
| "queueStep clock behaviour q (SubmitPromiseTask k t timeoutArg) = submitPromiseTask k t timeoutArg q"
| "queueStep clock behaviour q RunFires = runFires clock behaviour q"
| "queueStep clock behaviour q ReapFires = reapFires clock q"
| "queueStep clock behaviour q (CompletesLater i) = completesLater i q"
| "queueStep clock behaviour q (PromiseSettles i resolved) = promiseSettles i resolved q"
| "queueStep clock behaviour q (Stop immediately timeoutArg) = stop immediately timeoutArg q"
| "queueStep clock behaviour q StopTimerFires = stopTimerFires q"

text \<open>The state of a queue after a sequence of events.\<close>

definition queueAfter ::
  "(nat \<Rightarrow> int) \<Rightarrow> (nat \<Rightarrow> SyncBehaviour) \<Rightarrow> 't AsyncOpQueue \<Rightarrow> 't QueueEvent list \<Rightarrow> 't AsyncOpQueue" where
  "queueAfter clock behaviour q events = foldl (queueStep clock behaviour) q events"


section \<open>File-system operations (filesystemOps) on a POSIX host\<close>

text \<open>
  The tasks the operations submit, by what they do when the queue calls them: create a
  directory, fetch an object (by its key) and write it to a path, unlink a file (and prune its
  empty parent when asked), remove a directory with all its entries.
\<close>

datatype FsTask =
    MkdirTask string
  | DownloadTask string string
  | UnlinkTask string bool
  | RmdirTask string

text \<open>\<open>path.sep\<close> on a POSIX host.\<close>

definition pathSep :: string where
  "pathSep = ''/''"

text \<open>
  \<open>ensurePathEndsWithOsSeparator\<close> reads \<open>str.charAt(str.length)\<close>, the position after the
  last character.
\<close>

definition ensurePathEndsWithOsSeparator :: "string \<Rightarrow> string" where
  "ensurePathEndsWithOsSeparator str =
     (if charAt str (length str) = pathSep then str else str @ pathSep)"

text \<open>\<open>keyIsDirectory\<close> of s3ObjectOps.\<close>

definition keyIsDirectory :: "string \<Rightarrow> bool" where
  "keyIsDirectory k = (lastCharAt k = pathSep)"

text \<open>
  \<open>path.resolve\<close> of Node.js on a POSIX host, after its documentation: the arguments are
  joined from the right until one is absolute, the working directory being the last resort;
  empty segments and \<open>.\<close> are dropped, \<open>..\<close> removes the segment before it, and the result
  has no trailing separator.
\<close>

fun splitOn :: "char \<Rightarrow> string \<Rightarrow> string \<Rightarrow> string list" where
  "splitOn sep cur [] = [cur]"
| "splitOn sep cur (c # cs) =
     (if c = sep then cur # splitOn sep [] cs else splitOn sep (cur @ [c]) cs)"

fun normalizeSegments :: "bool \<Rightarrow> string list \<Rightarrow> string list \<Rightarrow> string list" where
  "normalizeSegments allowAboveRoot acc [] = acc"
| "normalizeSegments allowAboveRoot acc (seg # segs) =
     (if seg = [] \<or> seg = ''.'' then normalizeSegments allowAboveRoot acc segs
      else if seg = ''..'' then
        (if acc \<noteq> [] \<and> last acc \<noteq> ''..'' then normalizeSegments allowAboveRoot (butlast acc) segs
         else if allowAboveRoot then normalizeSegments allowAboveRoot (acc @ [seg]) segs
         else normalizeSegments allowAboveRoot acc segs)
      else normalizeSegments allowAboveRoot (acc @ [seg]) segs)"

fun joinSegments :: "string list \<Rightarrow> string" where
  "joinSegments [] = []"
| "joinSegments [seg] = seg"
| "joinSegments (seg # segs) = seg @ ''/'' @ joinSegments segs"

fun resolveFrom :: "string list \<Rightarrow> string \<Rightarrow> string \<times> bool" where
  "resolveFrom [] resolvedPath = (resolvedPath, False)"
| "resolveFrom (p # ps) resolvedPath =
     (if p = [] then resolveFrom ps resolvedPath
      else if hd p = CHR ''/'' then (p @ ''/'' @ resolvedPath, True)
      else resolveFrom ps (p @ ''/'' @ resolvedPath))"

definition pathResolve :: "string \<Rightarrow> string list \<Rightarrow> string" where
  "pathResolve cwd args =
     (let (resolvedPath, resolvedAbsolute) = resolveFrom (rev args @ [cwd]) [];
          normalized = joinSegments
            (normalizeSegments (\<not> resolvedAbsolute) [] (splitOn (CHR ''/'') [] resolvedPath))
      in if resolvedAbsolute then ''/'' @ normalized
         else if normalized \<noteq> [] then normalized else ''.'')"

text \<open>\<open>windowsRootRegex\<close>: a letter, a colon and a backslash, and nothing else.\<close>

definition isAsciiLetter :: "char \<Rightarrow> bool" where
  "isAsciiLetter c = ((CHR ''A'' \<le> c \<and> c \<le> CHR ''Z'') \<or> (CHR ''a'' \<le> c \<and> c \<le> CHR ''z''))"

definition matchesWindowsRoot :: "string \<Rightarrow> bool" where
  "matchesWindowsRoot str =
     (case str of [c, colon, sep] \<Rightarrow> isAsciiLetter c \<and> colon = CHR '':'' \<and> sep = CHR 0x5C
      | _ \<Rightarrow> False)"

definition writeS3Object ::
  "string \<Rightarrow> string \<Rightarrow> string \<Rightarrow> string \<Rightarrow> FsTask AsyncOpQueue \<Rightarrow> FsTask AsyncOpQueue" where
  "writeS3Object cwd rootDir transKey objKey q =
     (let writeFilePath = pathResolve cwd [rootDir, transKey] in
      submitPromiseTask writeFilePath
        (if keyIsDirectory transKey then MkdirTask writeFilePath
         else DownloadTask objKey writeFilePath)
        None q)"

definition unlinkFile ::
  "string \<Rightarrow> string \<Rightarrow> string \<Rightarrow> bool \<Rightarrow> FsTask AsyncOpQueue \<Rightarrow> FsTask AsyncOpQueue" where
  "unlinkFile cwd rootDir relativeFilePath remove q =
     (let removeFilePath = pathResolve cwd [rootDir, relativeFilePath] in
      submitPromiseTask removeFilePath (UnlinkTask removeFilePath remove) None q)"

definition mkdirRecursive ::
  "string \<Rightarrow> string \<Rightarrow> string \<Rightarrow> FsTask AsyncOpQueue \<Rightarrow> FsTask AsyncOpQueue" where
  "mkdirRecursive cwd rootDir relativeDirPath q =
     (let mkdirPath = pathResolve cwd [rootDir, relativeDirPath] in
      submitPromiseTask mkdirPath (MkdirTask mkdirPath) None q)"

text \<open>
  \<open>rmdirRecursive\<close>: the result is the error it throws, or the queue after the call (the same
  queue when the call only logs).
\<close>

definition rmdirRecursive ::
  "string \<Rightarrow> string \<Rightarrow> string \<Rightarrow> FsTask AsyncOpQueue \<Rightarrow> Error + FsTask AsyncOpQueue" where
  "rmdirRecursive cwd rootDir relativeDirPath q =
     (if ensurePathEndsWithOsSeparator relativeDirPath \<noteq> ensurePathEndsWithOsSeparator rootDir
      then
        (let rmDirPath = pathResolve cwd [rootDir, relativeDirPath] in
         if rmDirPath = ''/'' \<or> matchesWindowsRoot rmDirPath
         then Inl (RootDirectoryRemoval rmDirPath)
         else Inr (submitPromiseTask rmDirPath (RmdirTask rmDirPath) None q))
      else Inr q)"

text \<open>A call of the reconciler or of the notification listener, carried out on the queue.\<close>

fun performCall ::
  "string \<Rightarrow> string \<Rightarrow> bool \<Rightarrow> FsCall \<Rightarrow> FsTask AsyncOpQueue \<Rightarrow> Error + FsTask AsyncOpQueue" where
  "performCall cwd rootDir remove (WriteS3Object transKey objKey) q =
     Inr (writeS3Object cwd rootDir transKey objKey q)"
| "performCall cwd rootDir remove (UnlinkFile relativeFilePath) q =
     Inr (unlinkFile cwd rootDir relativeFilePath remove q)"
| "performCall cwd rootDir remove (RmdirRecursive relativeDirPath) q =
     rmdirRecursive cwd rootDir relativeDirPath q"


section \<open>The notification ingress (snsServer)\<close>

record S3EventRecord =
  eventName :: string
  eventVersion :: string
  bucketName :: string
  objectKey :: string

text \<open>
  The white space and the line terminators that \<open>Number.parseInt\<close> skips, as the bytes of
  their UTF-8 encoding: tab, line feed, vertical tab, form feed, carriage return, space, the
  no-break space U+00A0, U+1680, U+2000 to U+200A, the line and paragraph separators U+2028
  and U+2029, U+202F, U+205F, U+3000 and the byte order mark U+FEFF.
\<close>

definition whiteSpaceSequences :: "string list" where
  "whiteSpaceSequences =
     [[CHR 0x09], [CHR 0x0A], [CHR 0x0B], [CHR 0x0C], [CHR 0x0D], [CHR 0x20],
      [CHR 0xC2, CHR 0xA0],
      [CHR 0xE1, CHR 0x9A, CHR 0x80],
      [CHR 0xE2, CHR 0x80, CHR 0x80], [CHR 0xE2, CHR 0x80, CHR 0x81],
      [CHR 0xE2, CHR 0x80, CHR 0x82], [CHR 0xE2, CHR 0x80, CHR 0x83],
      [CHR 0xE2, CHR 0x80, CHR 0x84], [CHR 0xE2, CHR 0x80, CHR 0x85],
      [CHR 0xE2, CHR 0x80, CHR 0x86], [CHR 0xE2, CHR 0x80, CHR 0x87],
      [CHR 0xE2, CHR 0x80, CHR 0x88], [CHR 0xE2, CHR 0x80, CHR 0x89],
      [CHR 0xE2, CHR 0x80, CHR 0x8A],
      [CHR 0xE2, CHR 0x80, CHR 0xA8], [CHR 0xE2, CHR 0x80, CHR 0xA9],
      [CHR 0xE2, CHR 0x80, CHR 0xAF],
      [CHR 0xE2, CHR 0x81, CHR 0x9F],
      [CHR 0xE3, CHR 0x80, CHR 0x80],
      [CHR 0xEF, CHR 0xBB, CHR 0xBF]]"

text \<open>The number of bytes of the white-space character a string starts with, 0 if none.\<close>

definition whiteSpaceAt :: "string \<Rightarrow> nat" where
  "whiteSpaceAt s =
     (case find (\<lambda>w. prefix w s) whiteSpaceSequences of None \<Rightarrow> 0 | Some w \<Rightarrow> length w)"

function skipWhiteSpace :: "string \<Rightarrow> string" where
  "skipWhiteSpace s = (if whiteSpaceAt s = 0 then s else skipWhiteSpace (drop (whiteSpaceAt s) s))"
  by pat_completeness auto
termination
proof (relation "measure length")
  show "wf (measure length)" by simp
next
  fix s :: string
  assume w: "whiteSpaceAt s \<noteq> 0"
  have "s \<noteq> []"
  proof
    assume "s = []"
    then have "whiteSpaceAt s = 0"
      by (simp add: whiteSpaceAt_def whiteSpaceSequences_def)
    with w show False by simp
  qed
  with w show "(drop (whiteSpaceAt s) s, s) \<in> measure length" by simp
qed

text \<open>
  \<open>Number.parseInt\<close> without a radix: leading white space, an optional sign, then the longest
  run of digits, hexadecimal after \<open>0x\<close>; \<open>None\<close> is \<open>NaN\<close>.
\<close>

definition digitValue :: "nat \<Rightarrow> char \<Rightarrow> nat option" where
  "digitValue radix c =
     (let n = (of_char c :: nat);
          v = (if 48 \<le> n \<and> n \<le> 57 then Some (n - 48)
               else if 97 \<le> n \<and> n \<le> 122 then Some (n - 87)
               else if 65 \<le> n \<and> n \<le> 90 then Some (n - 55)
               else None)
      in case v of None \<Rightarrow> None | Some d \<Rightarrow> if d < radix then Some d else None)"

fun parseDigits :: "nat \<Rightarrow> nat option \<Rightarrow> string \<Rightarrow> nat option" where
  "parseDigits radix acc [] = acc"
| "parseDigits radix acc (c # cs) =
     (case digitValue radix c of
        None \<Rightarrow> acc
      | Some d \<Rightarrow> parseDigits radix (Some ((case acc of None \<Rightarrow> 0 | Some a \<Rightarrow> a) * radix + d)) cs)"

definition parseInt :: "string \<Rightarrow> int option" where
  "parseInt str =
     (let t = skipWhiteSpace str;
          negative = (t \<noteq> [] \<and> hd t = CHR ''-'');
          u = (if t \<noteq> [] \<and> (hd t = CHR ''-'' \<or> hd t = CHR ''+'') then tl t else t);
          hex = (take 2 u = ''0x'' \<or> take 2 u = ''0X'');
          magnitude = (if hex then parseDigits 16 None (drop 2 u) else parseDigits 10 None u)
      in case magnitude of
           None \<Rightarrow> None
         | Some m \<Rightarrow> Some (if negative then - int m else int m))"

definition DEFAULT_MAJOR_EVENT_VERSION :: int where
  "DEFAULT_MAJOR_EVENT_VERSION = 2"

definition DEFAULT_MINOR_EVENT_VERSION :: int where
  "DEFAULT_MINOR_EVENT_VERSION = 1"

text \<open>
  The version test of the default notification listener. A comparison with \<open>NaN\<close> is false,
  so \<open>NaN !== 2\<close> holds and \<open>NaN < 1\<close> does not.
\<close>

definition unsupportedEventVersion :: "string \<Rightarrow> bool" where
  "unsupportedEventVersion version =
     (let splitEventVersion = splitOn (CHR ''.'') [] version in
      length splitEventVersion < 2 \<or>
      parseInt (splitEventVersion ! 0) \<noteq> Some DEFAULT_MAJOR_EVENT_VERSION \<or>
      (case parseInt (splitEventVersion ! 1) of
         None \<Rightarrow> False
       | Some minor \<Rightarrow> minor < DEFAULT_MINOR_EVENT_VERSION))"

record SnsListenerOptions =
  bucket :: string
  keyPrefix :: "string option"
  keySuffix :: "string option"
  keyTransformers :: "(string \<Rightarrow> string) list"

text \<open>The filter on the object key: a configured, non-empty prefix or suffix that does not fit.\<close>

definition filteredOut :: "SnsListenerOptions \<Rightarrow> string \<Rightarrow> bool" where
  "filteredOut options k =
     ((case keyPrefix options of None \<Rightarrow> False | Some pre \<Rightarrow> pre \<noteq> [] \<and> \<not> prefix pre k) \<or>
      (case keySuffix options of None \<Rightarrow> False | Some sfx \<Rightarrow> sfx \<noteq> [] \<and> \<not> suffix sfx k))"

text \<open>
  The loop of the default notification listener over the records of one message. The result
  is the calls it has made to the file-system operations and the error it has thrown, if any.
\<close>

fun processRecords ::
  "SnsListenerOptions \<Rightarrow> S3EventRecord list \<Rightarrow> FsCall list \<Rightarrow> FsCall list \<times> Error option" where
  "processRecords options [] made = (made, None)"
| "processRecords options (record # later) made =
     (if unsupportedEventVersion (eventVersion record) then (made, Some UnsupportedEventVersion)
      else if filteredOut options (objectKey record) then processRecords options later made
      else
        (let transKey = applyTransformersToKey (objectKey record) (keyTransformers options) in
         if bucketName record = bucket options then
           (if prefix ''ObjectCreated:'' (eventName record) \<or>
               prefix ''ObjectRestore:'' (eventName record)
            then processRecords options later (made @ [WriteS3Object transKey (objectKey record)])
            else if prefix ''ObjectRemoved:'' (eventName record)
            then processRecords options later (made @ [UnlinkFile transKey])
            else processRecords options later made)
         else processRecords options later made))"

definition defaultSnsNotificationListener ::
  "SnsListenerOptions \<Rightarrow> S3EventRecord list \<Rightarrow> FsCall list \<times> Error option" where
  "defaultSnsNotificationListener options Records = processRecords options Records []"

text \<open>The parsed body of a request, as far as the request listener reads it.\<close>

record SnsBody =
  bodyType :: string
  bodyMessage :: string
  bodyToken :: string
  bodyTopicArn :: string

text \<open>
  What a request leaves behind: the status code of the response, if one was sent; the calls
  the notification listener made; whether a subscription confirmation went out; and whether
  the promise chain ended in a rejection nobody handles.
\<close>

record RequestOutcome =
  statusCode :: "nat option"
  listenerCalls :: "FsCall list"
  confirmationSent :: bool
  unhandledRejection :: bool

text \<open>\<open>body.Message.indexOf("Records") >= 0\<close>.\<close>

fun containsString :: "string \<Rightarrow> string \<Rightarrow> bool" where
  "containsString needle [] = (needle = [])"
| "containsString needle (c # cs) = (prefix needle (c # cs) \<or> containsString needle cs)"

text \<open>
  The \<open>end\<close> handler of the default request listener on the collected body. \<open>jsonParse\<close>,
  \<open>validateMessage\<close> and \<open>parseRecords\<close> stand for \<open>JSON.parse\<close> of the body, the signature
  validator and \<open>JSON.parse\<close> of the inner message; \<open>None\<close> is a thrown error or a rejected
  promise. Only the \<open>JSON.parse\<close> of the body runs inside the \<open>try\<close>; everything after it runs
  in the \<open>then\<close> callback of the validation promise, which has no \<open>catch\<close>.
\<close>

definition defaultRequestListener ::
  "bool \<Rightarrow> (string \<Rightarrow> SnsBody option) \<Rightarrow> (SnsBody \<Rightarrow> SnsBody option) \<Rightarrow>
     (string \<Rightarrow> S3EventRecord list option) \<Rightarrow>
     (S3EventRecord list \<Rightarrow> FsCall list \<times> Error option) \<Rightarrow> string \<Rightarrow> RequestOutcome" where
  "defaultRequestListener ignoreMessageValidation jsonParse validateMessage parseRecords
       snsNotificationListener chunks =
     (case jsonParse chunks of
        None \<Rightarrow>
          \<lparr>statusCode = Some 500, listenerCalls = [], confirmationSent = False,
           unhandledRejection = False\<rparr>
      | Some parsed \<Rightarrow>
          (case (if ignoreMessageValidation then Some parsed else validateMessage parsed) of
             None \<Rightarrow>
               \<lparr>statusCode = None, listenerCalls = [], confirmationSent = False,
                unhandledRejection = True\<rparr>
           | Some body \<Rightarrow>
               if bodyType body = ''SubscriptionConfirmation'' then
                 \<lparr>statusCode = Some 200, listenerCalls = [], confirmationSent = True,
                  unhandledRejection = False\<rparr>
               else if bodyType body = ''Notification'' then
                 (if containsString ''Records'' (bodyMessage body) then
                    (case parseRecords (bodyMessage body) of
                       None \<Rightarrow>
                         \<lparr>statusCode = None, listenerCalls = [], confirmationSent = False,
                          unhandledRejection = True\<rparr>
                     | Some Records \<Rightarrow>
                         (case snsNotificationListener Records of
                            (made, None) \<Rightarrow>
                              \<lparr>statusCode = Some 200, listenerCalls = made,
                               confirmationSent = False, unhandledRejection = False\<rparr>
                          | (made, Some err) \<Rightarrow>
                              \<lparr>statusCode = None, listenerCalls = made,
                               confirmationSent = False, unhandledRejection = True\<rparr>))
                  else
                    \<lparr>statusCode = Some 200, listenerCalls = [], confirmationSent = False,
                     unhandledRejection = False\<rparr>)
               else
                 \<lparr>statusCode = Some 200, listenerCalls = [], confirmationSent = False,
                  unhandledRejection = False\<rparr>))"

text \<open>
  The process (shutdown.ts). The handler installed for \<open>unhandledRejection\<close> calls
  \<open>runHooks(1, ...)\<close>, which, when a shutdown hook is registered, runs the hooks and calls
  \<open>process.exit\<close> with the exit code, after the hooks have finished or the timeout has passed;
  with no hook registered it does nothing. The server registers the hook that closes it.
\<close>

datatype ProcessState = Serving | Exited nat

definition runHooks :: "nat \<Rightarrow> nat \<Rightarrow> ProcessState" where
  "runHooks exitCode shutdownHandlers = (if shutdownHandlers > 0 then Exited exitCode else Serving)"

text \<open>The process after a request, with the number of shutdown hooks that are registered.\<close>

definition afterRequest :: "nat \<Rightarrow> RequestOutcome \<Rightarrow> ProcessState" where
  "afterRequest shutdownHandlers outcome =
     (if unhandledRejection outcome then runHooks 1 shutdownHandlers else Serving)"

section \<open>Invariants of the queue\<close>

text \<open>
  Between two callbacks of the event loop the keys of the running-task table are distinct,
  the table and its largest size so far are within the cap rounded up, and \<open>runCount\<close> is
  the size of the table as long as the dispatch loop is scheduled.
\<close>

definition queueInvariant :: "'t AsyncOpQueue \<Rightarrow> bool" where
  "queueInvariant q =
     (distinct (map fst (runningTasks q)) \<and>
      int (length (runningTasks q)) \<le> \<lceil>maxConcurrency q\<rceil> \<and>
      int (peakRunning q) \<le> \<lceil>maxConcurrency q\<rceil> \<and>
      (runScheduled q \<longrightarrow> runCount q = int (length (runningTasks q))))"

text \<open>The tasks a queue state has started beyond those of an earlier state.\<close>

definition startedSince :: "'t AsyncOpQueue \<Rightarrow> 't AsyncOpQueue \<Rightarrow> (nat \<times> 't QueueItem) list" where
  "startedSince q q' = drop (length (started q)) (started q')"

text \<open>Inside the dispatch loop \<open>runCount\<close> is the size of the table at every turn.\<close>

definition loopInvariant :: "'t AsyncOpQueue \<Rightarrow> bool" where
  "loopInvariant q =
     (distinct (map fst (runningTasks q)) \<and>
      int (length (runningTasks q)) \<le> \<lceil>maxConcurrency q\<rceil> \<and>
      int (peakRunning q) \<le> \<lceil>maxConcurrency q\<rceil> \<and>
      runCount q = int (length (runningTasks q)))"

text \<open>
  The entry of key \<open>k\<close> in the running-task table belongs to run \<open>i\<close>, and \<open>i\<close> is a
  promise task without \<open>catch\<close> whose promise is pending or has rejected.
\<close>

definition keyHeld :: "string \<Rightarrow> nat \<Rightarrow> int option \<Rightarrow> 't AsyncOpQueue \<Rightarrow> bool" where
  "keyHeld k i ex q =
     (map_of (runningTasks q) k = Some \<lparr>expiration = ex, runningId = i\<rparr> \<and>
      i < runId q \<and>
      (case map_of (pending q) i of None \<Rightarrow> True | Some t \<Rightarrow> itemWrapper t = ThenOnly))"

text \<open>From \<open>q\<close> to \<open>q'\<close> only tasks of other keys than \<open>k\<close> have been started.\<close>

definition startsOthers :: "string \<Rightarrow> 't AsyncOpQueue \<Rightarrow> 't AsyncOpQueue \<Rightarrow> bool" where
  "startsOthers k q q' =
     (\<exists>new. started q' = started q @ new \<and> (\<forall>x \<in> set new. itemKey (snd x) \<noteq> k))"

section \<open>Properties of the comparator\<close>

lemma compare_range: "compareStringsUtf8BinaryOrder a b \<in> {- 1, 0, 1}"
  by (induction a b rule: compareStringsUtf8BinaryOrder.induct) auto

lemma compare_eq_iff: "compareStringsUtf8BinaryOrder a b = 0 \<longleftrightarrow> a = b"
  by (induction a b rule: compareStringsUtf8BinaryOrder.induct) auto

lemma compare_less_iff: "compareStringsUtf8BinaryOrder a b = - 1 \<longleftrightarrow> a < b"
  by (induction a b rule: compareStringsUtf8BinaryOrder.induct)
     (auto simp: less_char_def)

lemma compare_le_iff: "compareStringsUtf8BinaryOrder a b \<le> 0 \<longleftrightarrow> a \<le> b"
  using compare_range [of a b] compare_eq_iff [of a b] compare_less_iff [of a b]
  by auto

lemma between_prefix:
  fixes d e :: "'a::linorder list"
  shows "d \<le> e \<Longrightarrow> e \<le> d @ t \<Longrightarrow> prefix d e"
proof (induction d arbitrary: e)
  case Nil
  then show ?case by simp
next
  case (Cons x d)
  then show ?case by (cases e) auto
qed

text \<open>
  The final sort of the directory listing, \<open>retList.sort\<close> with the comparator on the
  relative paths, returns its entries in the order of the comparator.
\<close>

lemma set_insertBy: "set (insertBy cmp x xs) = insert x (set xs)"
  by (induction xs) auto

lemma insertBy_sorted:
  fixes f :: "'a \<Rightarrow> string"
  shows "sorted_wrt (\<lambda>a b. compareStringsUtf8BinaryOrder (f a) (f b) \<le> 0) xs \<Longrightarrow>
     sorted_wrt (\<lambda>a b. compareStringsUtf8BinaryOrder (f a) (f b) \<le> 0)
       (insertBy (\<lambda>a b. compareStringsUtf8BinaryOrder (f a) (f b)) x xs)"
proof (induction xs)
  case Nil
  then show ?case by simp
next
  case (Cons y ys)
  show ?case
  proof (cases "compareStringsUtf8BinaryOrder (f x) (f y) \<le> 0")
    case True
    then have "f x \<le> f y" by (simp add: compare_le_iff)
    moreover have "\<forall>z \<in> set ys. f y \<le> f z"
      using Cons.prems by (simp add: compare_le_iff)
    ultimately have "\<forall>z \<in> set ys. f x \<le> f z" by auto
    with True Cons.prems show ?thesis by (simp add: compare_le_iff)
  next
    case False
    then have "f y \<le> f x" by (simp add: compare_le_iff)
    with False Cons show ?thesis
      by (auto simp: compare_le_iff set_insertBy)
  qed
qed

lemma arraySort_sorted:
  fixes f :: "'a \<Rightarrow> string"
  shows "sorted_wrt (\<lambda>a b. compareStringsUtf8BinaryOrder (f a) (f b) \<le> 0)
     (arraySort (\<lambda>a b. compareStringsUtf8BinaryOrder (f a) (f b)) xs)"
  unfolding arraySort_def
  by (induction xs) (simp_all add: insertBy_sorted)

section \<open>Properties of the reconciler\<close>

lemma syncReaches_cursor:
  "syncReaches win32 remove es rs s \<Longrightarrow>
     0 < dirEntPos s \<and> dirEntry s = arrayGet es (dirEntPos s - 1)"
proof (induction rule: syncReaches.induct)
  case start
  show ?case by (simp add: syncStart_def getNextDirEntry_def getNextS3ListObj_def)
next
  case (iterate s)
  have skip: "\<And>d (t::SyncState). 0 < dirEntPos (getNextDirEntryAfterRemovedDir es d t) \<and>
      dirEntry (getNextDirEntryAfterRemovedDir es d t) =
        arrayGet es (dirEntPos (getNextDirEntryAfterRemovedDir es d t) - 1)"
  proof -
    fix d and t :: SyncState
    obtain r p where rp: "skipRemovedDir es d (dirEntPos t) = (r, p)"
      by (cases "skipRemovedDir es d (dirEntPos t)")
    from skipRemovedDir_result [OF rp] rp
    show "0 < dirEntPos (getNextDirEntryAfterRemovedDir es d t) \<and>
      dirEntry (getNextDirEntryAfterRemovedDir es d t) =
        arrayGet es (dirEntPos (getNextDirEntryAfterRemovedDir es d t) - 1)"
      by (simp add: getNextDirEntryAfterRemovedDir_def)
  qed
  from iterate.IH show ?case
    by (auto simp: syncIteration_def getNextDirEntry_def getNextS3ListObj_def submitCall_def
          skip Let_def split: option.splits)
qed

text \<open>
  Claim C1. When the current local entry's relative path equals the current remote object's
  transformed key, one pass of the loop submits no action if the local entry is a directory;
  otherwise it submits a write of the remote object exactly when the remote last-modified
  instant is strictly greater than the local mtime or the sizes differ. In every case both
  cursors advance by one element.
\<close>

theorem sync_equal_paths:
  assumes "dirEntry s = Some d" and "s3ListObj s = Some r"
    and "compareStringsUtf8BinaryOrder (relativePath d) (transformedKey r) = 0"
    and "s' = syncIteration win32 remove dirEntries s3List s"
  shows "calls s' =
           (if \<not> checkKeyOrPathIsDirectory win32 (relativePath d) \<and>
               (LastModified r > mtime (stats d) \<or> Size r \<noteq> fsize (stats d))
            then calls s @ [WriteS3Object (transformedKey r) (Key r)]
            else calls s) \<and>
         dirEntry s' = arrayGet dirEntries (dirEntPos s) \<and>
         dirEntPos s' = Suc (dirEntPos s) \<and>
         s3ListObj s' = arrayGet s3List (s3ListPos s) \<and>
         s3ListPos s' = Suc (s3ListPos s)"
  using assms
  by (simp add: syncIteration_def getNextDirEntry_def getNextS3ListObj_def submitCall_def)

theorem sync_equal_paths_witness:
  "dirEntry (syncStart [\<lparr>relativePath = ''1.txt'', stats = \<lparr>mtime = 10, fsize = 3\<rparr>\<rparr>]
       [\<lparr>Key = ''/1.txt'', LastModified = 20, Size = 3, transformedKey = ''1.txt''\<rparr>])
     = Some \<lparr>relativePath = ''1.txt'', stats = \<lparr>mtime = 10, fsize = 3\<rparr>\<rparr> \<and>
   compareStringsUtf8BinaryOrder ''1.txt'' ''1.txt'' = 0 \<and>
   calls (syncIteration False True
       [\<lparr>relativePath = ''1.txt'', stats = \<lparr>mtime = 10, fsize = 3\<rparr>\<rparr>]
       [\<lparr>Key = ''/1.txt'', LastModified = 20, Size = 3, transformedKey = ''1.txt''\<rparr>]
       (syncStart [\<lparr>relativePath = ''1.txt'', stats = \<lparr>mtime = 10, fsize = 3\<rparr>\<rparr>]
          [\<lparr>Key = ''/1.txt'', LastModified = 20, Size = 3, transformedKey = ''1.txt''\<rparr>]))
     = [WriteS3Object ''1.txt'' ''/1.txt'']"
proof -
  let ?d = "\<lparr>relativePath = ''1.txt'', stats = \<lparr>mtime = 10, fsize = 3\<rparr>\<rparr>"
  let ?r = "\<lparr>Key = ''/1.txt'', LastModified = 20, Size = 3, transformedKey = ''1.txt''\<rparr>"
  let ?s = "syncStart [?d] [?r]"
  have h1: "dirEntry ?s = Some ?d"
    by (simp add: syncStart_def getNextDirEntry_def getNextS3ListObj_def arrayGet_def)
  have h2: "s3ListObj ?s = Some ?r"
    by (simp add: syncStart_def getNextDirEntry_def getNextS3ListObj_def arrayGet_def)
  have h3: "compareStringsUtf8BinaryOrder (relativePath ?d) (transformedKey ?r) = 0"
    by simp
  have h4: "calls ?s = []"
    by (simp add: syncStart_def getNextDirEntry_def getNextS3ListObj_def)
  from sync_equal_paths [OF h1 h2 h3 refl, of False True "[?d]" "[?r]"] h1 h3 h4
  show ?thesis
    by (simp add: checkKeyOrPathIsDirectory_def lastCharAt_def charAt_def)
qed

text \<open>
  Claim C2. When the current local entry's path is strictly less than the current remote
  object's transformed key, the remote cursor stays. With \<open>remove = false\<close> the local cursor
  advances with no action. With \<open>remove = true\<close>: a directory that does not contain the key
  is removed recursively and the local cursor passes over exactly the following entries whose
  path starts with the directory's path (the directory entries are sorted, as the final sort
  of the listing leaves them); a directory that contains the key is kept and the local cursor advances; any
  other entry is unlinked and the local cursor advances.
\<close>

theorem sync_local_before_remote:
  assumes "syncReaches win32 remove dirEntries s3List s"
    and "sorted_wrt (\<lambda>a b. compareStringsUtf8BinaryOrder (relativePath a) (relativePath b) \<le> 0)
           dirEntries"
    and "dirEntry s = Some d" and "s3ListObj s = Some r"
    and "compareStringsUtf8BinaryOrder (relativePath d) (transformedKey r) = - 1"
    and "s' = syncIteration win32 remove dirEntries s3List s"
  shows "s3ListObj s' = s3ListObj s \<and> s3ListPos s' = s3ListPos s \<and>
    (\<not> remove \<longrightarrow>
       calls s' = calls s \<and>
       dirEntry s' = arrayGet dirEntries (dirEntPos s) \<and> dirEntPos s' = Suc (dirEntPos s)) \<and>
    (remove \<and> checkKeyOrPathIsDirectory win32 (relativePath d) \<and>
       \<not> prefix (relativePath d) (transformedKey r) \<longrightarrow>
       calls s' = calls s @ [RmdirRecursive (relativePath d)] \<and>
       dirEntPos s < dirEntPos s' \<and>
       dirEntry s' = arrayGet dirEntries (dirEntPos s' - 1) \<and>
       (\<forall>i. dirEntPos s \<le> i \<and> i < length dirEntries \<longrightarrow>
          (prefix (relativePath d) (relativePath (dirEntries ! i)) \<longleftrightarrow> i < dirEntPos s' - 1))) \<and>
    (remove \<and> checkKeyOrPathIsDirectory win32 (relativePath d) \<and>
       prefix (relativePath d) (transformedKey r) \<longrightarrow>
       calls s' = calls s \<and>
       dirEntry s' = arrayGet dirEntries (dirEntPos s) \<and> dirEntPos s' = Suc (dirEntPos s)) \<and>
    (remove \<and> \<not> checkKeyOrPathIsDirectory win32 (relativePath d) \<longrightarrow>
       calls s' = calls s @ [UnlinkFile (relativePath d)] \<and>
       dirEntry s' = arrayGet dirEntries (dirEntPos s) \<and> dirEntPos s' = Suc (dirEntPos s))"
proof -
  let ?p = "relativePath d"
  have plain: "s3ListObj s' = s3ListObj s \<and> s3ListPos s' = s3ListPos s"
    using assms(3-6)
    by (simp add: syncIteration_def getNextDirEntry_def getNextDirEntryAfterRemovedDir_def
          submitCall_def keyBelongsInCurrentDirectory_def split: prod.splits)
  have keep: "\<not> remove \<longrightarrow>
       calls s' = calls s \<and>
       dirEntry s' = arrayGet dirEntries (dirEntPos s) \<and> dirEntPos s' = Suc (dirEntPos s)"
    using assms(3-6) by (simp add: syncIteration_def getNextDirEntry_def)
  have inside: "remove \<and> checkKeyOrPathIsDirectory win32 ?p \<and> prefix ?p (transformedKey r) \<longrightarrow>
       calls s' = calls s \<and>
       dirEntry s' = arrayGet dirEntries (dirEntPos s) \<and> dirEntPos s' = Suc (dirEntPos s)"
    using assms(3-6)
    by (simp add: syncIteration_def getNextDirEntry_def keyBelongsInCurrentDirectory_def)
  have isfile: "remove \<and> \<not> checkKeyOrPathIsDirectory win32 ?p \<longrightarrow>
       calls s' = calls s @ [UnlinkFile ?p] \<and>
       dirEntry s' = arrayGet dirEntries (dirEntPos s) \<and> dirEntPos s' = Suc (dirEntPos s)"
    using assms(3-6)
    by (simp add: syncIteration_def getNextDirEntry_def submitCall_def)
  have rmdir: "calls s' = calls s @ [RmdirRecursive ?p] \<and>
       dirEntPos s < dirEntPos s' \<and>
       dirEntry s' = arrayGet dirEntries (dirEntPos s' - 1) \<and>
       (\<forall>i. dirEntPos s \<le> i \<and> i < length dirEntries \<longrightarrow>
          (prefix ?p (relativePath (dirEntries ! i)) \<longleftrightarrow> i < dirEntPos s' - 1))"
    if c: "remove" "checkKeyOrPathIsDirectory win32 ?p" "\<not> prefix ?p (transformedKey r)"
  proof -
    obtain e p where ep: "skipRemovedDir dirEntries ?p (dirEntPos s) = (e, p)"
      by (cases "skipRemovedDir dirEntries ?p (dirEntPos s)")
    have s': "s' = (submitCall (RmdirRecursive ?p) s)\<lparr>dirEntry := e, dirEntPos := p\<rparr>"
      using assms(3-6) c ep
      by (simp add: syncIteration_def getNextDirEntryAfterRemovedDir_def submitCall_def
            keyBelongsInCurrentDirectory_def)
    note res = skipRemovedDir_result [OF ep]
    from syncReaches_cursor [OF assms(1)] assms(3)
    have cur: "0 < dirEntPos s" "arrayGet dirEntries (dirEntPos s - 1) = Some d"
      by simp_all
    then have didx: "dirEntPos s - 1 < length dirEntries" "dirEntries ! (dirEntPos s - 1) = d"
      by (auto simp: arrayGet_def split: if_splits)
    have sorted_nth: "relativePath (dirEntries ! i) \<le> relativePath (dirEntries ! j)"
      if "i < j" "j < length dirEntries" for i j
      using assms(2) that by (simp add: sorted_wrt_iff_nth_less compare_le_iff)
    have after: "\<not> prefix ?p (relativePath (dirEntries ! i))"
      if i: "p - 1 \<le> i" "i < length dirEntries" for i
    proof
      assume pre: "prefix ?p (relativePath (dirEntries ! i))"
      from i res have "p - 1 < length dirEntries" by simp
      with res obtain x where x: "e = Some x" "dirEntries ! (p - 1) = x"
        by (auto simp: arrayGet_def)
      with res have nx: "\<not> prefix ?p (relativePath x)" by simp
      have "i \<noteq> p - 1" using pre nx x by auto
      with i have lt: "p - 1 < i" by simp
      have "dirEntPos s - 1 < p - 1" using res cur by linarith
      from sorted_nth [OF this \<open>p - 1 < length dirEntries\<close>] didx x
      have le1: "?p \<le> relativePath x" by simp
      from sorted_nth [OF lt i(2)] x
      have le2: "relativePath x \<le> relativePath (dirEntries ! i)" by simp
      from pre obtain t where "relativePath (dirEntries ! i) = ?p @ t"
        by (auto simp: prefix_def)
      with le2 have "relativePath x \<le> ?p @ t" by simp
      from between_prefix [OF le1 this] nx show False by simp
    qed
    have "\<forall>i. dirEntPos s \<le> i \<and> i < length dirEntries \<longrightarrow>
          (prefix ?p (relativePath (dirEntries ! i)) \<longleftrightarrow> i < p - 1)"
    proof (intro allI impI)
      fix i assume a: "dirEntPos s \<le> i \<and> i < length dirEntries"
      show "prefix ?p (relativePath (dirEntries ! i)) \<longleftrightarrow> i < p - 1"
      proof (cases "i < p - 1")
        case True
        with a res show ?thesis by simp
      next
        case False
        with a after [of i] show ?thesis by simp
      qed
    qed
    with res show ?thesis
      by (simp add: s' submitCall_def)
  qed
  from plain keep inside isfile rmdir show ?thesis by blast
qed

theorem sync_local_before_remote_witness:
  "syncReaches False True
     [\<lparr>relativePath = ''dir2/'', stats = \<lparr>mtime = 1, fsize = 0\<rparr>\<rparr>,
      \<lparr>relativePath = ''dir2/a'', stats = \<lparr>mtime = 1, fsize = 5\<rparr>\<rparr>,
      \<lparr>relativePath = ''z.txt'', stats = \<lparr>mtime = 1, fsize = 5\<rparr>\<rparr>]
     [\<lparr>Key = ''z.txt'', LastModified = 1, Size = 5, transformedKey = ''z.txt''\<rparr>]
     (syncStart
        [\<lparr>relativePath = ''dir2/'', stats = \<lparr>mtime = 1, fsize = 0\<rparr>\<rparr>,
         \<lparr>relativePath = ''dir2/a'', stats = \<lparr>mtime = 1, fsize = 5\<rparr>\<rparr>,
         \<lparr>relativePath = ''z.txt'', stats = \<lparr>mtime = 1, fsize = 5\<rparr>\<rparr>]
        [\<lparr>Key = ''z.txt'', LastModified = 1, Size = 5, transformedKey = ''z.txt''\<rparr>]) \<and>
   compareStringsUtf8BinaryOrder ''dir2/'' ''z.txt'' = - 1 \<and>
   calls (syncIteration False True
     [\<lparr>relativePath = ''dir2/'', stats = \<lparr>mtime = 1, fsize = 0\<rparr>\<rparr>,
      \<lparr>relativePath = ''dir2/a'', stats = \<lparr>mtime = 1, fsize = 5\<rparr>\<rparr>,
      \<lparr>relativePath = ''z.txt'', stats = \<lparr>mtime = 1, fsize = 5\<rparr>\<rparr>]
     [\<lparr>Key = ''z.txt'', LastModified = 1, Size = 5, transformedKey = ''z.txt''\<rparr>]
     (syncStart
        [\<lparr>relativePath = ''dir2/'', stats = \<lparr>mtime = 1, fsize = 0\<rparr>\<rparr>,
         \<lparr>relativePath = ''dir2/a'', stats = \<lparr>mtime = 1, fsize = 5\<rparr>\<rparr>,
         \<lparr>relativePath = ''z.txt'', stats = \<lparr>mtime = 1, fsize = 5\<rparr>\<rparr>]
        [\<lparr>Key = ''z.txt'', LastModified = 1, Size = 5, transformedKey = ''z.txt''\<rparr>]))
     = [RmdirRecursive ''dir2/'']"
proof -
  let ?d = "\<lparr>relativePath = ''dir2/'', stats = \<lparr>mtime = 1, fsize = 0\<rparr>\<rparr>"
  let ?es = "[?d, \<lparr>relativePath = ''dir2/a'', stats = \<lparr>mtime = 1, fsize = 5\<rparr>\<rparr>,
      \<lparr>relativePath = ''z.txt'', stats = \<lparr>mtime = 1, fsize = 5\<rparr>\<rparr>]"
  let ?r = "\<lparr>Key = ''z.txt'', LastModified = 1, Size = 5, transformedKey = ''z.txt''\<rparr>"
  let ?s = "syncStart ?es [?r]"
  have reach: "syncReaches False True ?es [?r] ?s"
    by (rule syncReaches.start)
  have srt: "sorted_wrt (\<lambda>a b. compareStringsUtf8BinaryOrder (relativePath a) (relativePath b) \<le> 0) ?es"
    by simp
  have h1: "dirEntry ?s = Some ?d"
    by (simp add: syncStart_def getNextDirEntry_def getNextS3ListObj_def arrayGet_def)
  have h2: "s3ListObj ?s = Some ?r"
    by (simp add: syncStart_def getNextDirEntry_def getNextS3ListObj_def arrayGet_def)
  have h3: "compareStringsUtf8BinaryOrder (relativePath ?d) (transformedKey ?r) = - 1"
    by simp
  have h4: "calls ?s = []"
    by (simp add: syncStart_def getNextDirEntry_def getNextS3ListObj_def)
  have h5: "checkKeyOrPathIsDirectory False (relativePath ?d)"
    by (simp add: checkKeyOrPathIsDirectory_def lastCharAt_def charAt_def)
  have h6: "\<not> prefix (relativePath ?d) (transformedKey ?r)"
    by simp
  from sync_local_before_remote [OF reach srt h1 h2 h3 refl] h5 h6 h4
  have "calls (syncIteration False True ?es [?r] ?s) = [RmdirRecursive ''dir2/'']"
    by simp
  with reach h3 show ?thesis by simp
qed

text \<open>
  The second end-to-end scenario of the specification: with \<open>remove = true\<close> the run writes
  \<open>0.txt\<close>, \<open>dir1/dir1_1/aa.txt\<close> (its size differs) and \<open>whatever.txt\<close>, unlinks the five
  local-only files, removes \<open>dir2/\<close> recursively and leaves \<open>z.txt\<close> alone.
\<close>

lemma sync_mixed_scenario:
  "sync False True
     [\<lparr>relativePath = ''1.txt'', stats = \<lparr>mtime = 5, fsize = 1\<rparr>\<rparr>,
      \<lparr>relativePath = ''a.txt'', stats = \<lparr>mtime = 5, fsize = 1\<rparr>\<rparr>,
      \<lparr>relativePath = ''dir1/'', stats = \<lparr>mtime = 5, fsize = 0\<rparr>\<rparr>,
      \<lparr>relativePath = ''dir1/2.txt'', stats = \<lparr>mtime = 5, fsize = 1\<rparr>\<rparr>,
      \<lparr>relativePath = ''dir1/22.txt'', stats = \<lparr>mtime = 5, fsize = 1\<rparr>\<rparr>,
      \<lparr>relativePath = ''dir1/dir1_1/'', stats = \<lparr>mtime = 5, fsize = 0\<rparr>\<rparr>,
      \<lparr>relativePath = ''dir1/dir1_1/aa.txt'', stats = \<lparr>mtime = 5, fsize = 1\<rparr>\<rparr>,
      \<lparr>relativePath = ''dir2/'', stats = \<lparr>mtime = 5, fsize = 0\<rparr>\<rparr>,
      \<lparr>relativePath = ''z.txt'', stats = \<lparr>mtime = 5, fsize = 1\<rparr>\<rparr>,
      \<lparr>relativePath = [CHR 0xC3, CHR 0xB1, CHR ''.'', CHR ''t'', CHR ''x'', CHR ''t''],
        stats = \<lparr>mtime = 5, fsize = 1\<rparr>\<rparr>]
     [\<lparr>Key = ''0.txt'', LastModified = 5, Size = 1, transformedKey = ''0.txt''\<rparr>,
      \<lparr>Key = ''dir1/dir1_1/aa.txt'', LastModified = 5, Size = 12,
        transformedKey = ''dir1/dir1_1/aa.txt''\<rparr>,
      \<lparr>Key = ''whatever.txt'', LastModified = 5, Size = 1, transformedKey = ''whatever.txt''\<rparr>,
      \<lparr>Key = ''z.txt'', LastModified = 5, Size = 1, transformedKey = ''z.txt''\<rparr>]
   = [WriteS3Object ''0.txt'' ''0.txt'', UnlinkFile ''1.txt'', UnlinkFile ''a.txt'',
      UnlinkFile ''dir1/2.txt'', UnlinkFile ''dir1/22.txt'',
      WriteS3Object ''dir1/dir1_1/aa.txt'' ''dir1/dir1_1/aa.txt'',
      RmdirRecursive ''dir2/'', WriteS3Object ''whatever.txt'' ''whatever.txt'',
      UnlinkFile [CHR 0xC3, CHR 0xB1, CHR ''.'', CHR ''t'', CHR ''x'', CHR ''t'']]"
  by code_simp

section \<open>Properties of the root-prefix transformer\<close>

lemma charAt_drop: "charAt k (n + i) = charAt (drop n k) i"
  by (auto simp: charAt_def)

lemma charAt_Cons0: "charAt (c # cs) 0 = [c]"
  by (simp add: charAt_def)

lemma charAt_ConsSuc: "charAt (c # cs) (Suc i) = charAt cs i"
  by (simp add: charAt_def)

lemma charAt_Nil: "charAt [] i = []"
  by (simp add: charAt_def)

lemma rootCharsAt_drop:
  assumes "startPos \<le> length k"
  shows "rootCharsAt k startPos =
     (rootPrefixLength (drop startPos k) > 0, rootPrefixLength (drop startPos k) = 3)"
proof -
  have c0: "charAt k startPos = charAt (drop startPos k) 0"
    using charAt_drop [of k startPos 0] by simp
  have c1: "charAt k (startPos + 1) = charAt (drop startPos k) 1"
    using charAt_drop [of k startPos 1] by simp
  have c2: "charAt k (startPos + 2) = charAt (drop startPos k) 2"
    using charAt_drop [of k startPos 2] by simp
  have len: "int (length k) - int startPos = int (length (drop startPos k))"
    using assms by simp
  show ?thesis
    unfolding rootCharsAt_def c0 c1 c2 len
    by (cases "drop startPos k")
       (auto simp: charAt_Cons0 charAt_ConsSuc charAt_Nil numeral_2_eq_2 split: list.splits)
qed

lemma rootPrefixLength_le: "rootPrefixLength t \<le> length t"
  by (cases t) (auto split: list.splits)

lemma rootPrefixLength_cases:
  "rootPrefixLength t = 0 \<or> rootPrefixLength t = 1 \<or> rootPrefixLength t = 3"
  by (cases t) (auto split: list.splits)

lemma rootPrefixLength_take:
  "rootPrefixLength t = n \<Longrightarrow> rootPrefixLength (take n t) = n"
  by (cases t) (auto split: list.splits if_splits)

lemma removeRootLoop_result:
  "startPos \<le> length k \<Longrightarrow>
     startPos \<le> removeRootLoop k startPos \<and>
     removeRootLoop k startPos \<le> length k \<and>
     rootPrefixes (take (removeRootLoop k startPos - startPos) (drop startPos k)) \<and>
     rootPrefixLength (drop (removeRootLoop k startPos) k) = 0"
proof (induction k startPos rule: removeRootLoop.induct)
  case (1 k startPos)
  let ?w = "rootPrefixLength (drop startPos k)"
  note rc = rootCharsAt_drop [OF "1.prems"]
  show ?case
  proof (cases "?w = 0")
    case True
    with rc have "removeRootLoop k startPos = startPos"
      by (simp add: removeRootLoop.simps [of k startPos])
    with True show ?thesis
      using "1.prems" by (simp add: rootPrefixes.none)
  next
    case False
    let ?n = "startPos + ?w"
    from False rootPrefixLength_cases [of "drop startPos k"]
    have w13: "?w = 1 \<or> ?w = 3" by simp
    have next_eq: "(if ?w = 3 then startPos + 1 + 2 else startPos + 1) = ?n"
      using w13 by auto
    have step: "removeRootLoop k startPos = removeRootLoop k ?n"
      using False rc next_eq by (simp add: removeRootLoop.simps [of k startPos])
    have le: "?n \<le> length k"
      using rootPrefixLength_le [of "drop startPos k"] "1.prems" by simp
    have rcT: "rootCharsAt k startPos = (True, ?w = 3)"
      using rc False by simp
    from "1.IH" [OF rcT [symmetric] refl] le next_eq
    have ih: "?n \<le> removeRootLoop k ?n" "removeRootLoop k ?n \<le> length k"
      "rootPrefixes (take (removeRootLoop k ?n - ?n) (drop ?n k))"
      "rootPrefixLength (drop (removeRootLoop k ?n) k) = 0"
      by simp_all
    let ?m = "removeRootLoop k ?n"
    have split: "take (?m - startPos) (drop startPos k) =
        take ?w (drop startPos k) @ take (?m - ?n) (drop ?n k)"
    proof -
      have "?m - startPos = ?w + (?m - ?n)" using ih(1) by simp
      then show ?thesis
        by (simp add: take_add add.commute)
    qed
    have tok: "rootPrefixLength (take ?w (drop startPos k)) = length (take ?w (drop startPos k))"
      using rootPrefixLength_take [OF refl, of "drop startPos k"]
        rootPrefixLength_le [of "drop startPos k"] by simp
    have ne: "take ?w (drop startPos k) \<noteq> []"
      using False rootPrefixLength_le [of "drop startPos k"] by auto
    from rootPrefixes.more [OF tok ne ih(3)]
    have "rootPrefixes (take (?m - startPos) (drop startPos k))"
      by (simp add: split)
    with ih step show ?thesis by simp
  qed
qed

lemma removeRoot_example: "removeRootDirCharsFromS3Key ''//C:/x'' = ''x''"
  by (simp add: removeRootDirCharsFromS3Key_def removeRootLoop.simps rootCharsAt_def charAt_def
        less_eq_char_def less_char_def)

text \<open>
  Claim C8, as the code has it. The transformer removes from the front of the key a sequence
  of root prefixes, each a separator (slash or backslash) or an upper-case drive letter \<open>A\<close> to \<open>Z\<close>
  followed by a colon and a separator, and it stops only where the rest starts with no such
  prefix. A lower-case drive letter is not a root prefix.
\<close>

theorem removeRootDirCharsFromS3Key_strips:
  "\<exists>pre. k = pre @ removeRootDirCharsFromS3Key k \<and> rootPrefixes pre \<and>
       rootPrefixLength (removeRootDirCharsFromS3Key k) = 0"
proof -
  from removeRootLoop_result [of 0 k]
  have res: "removeRootLoop k 0 \<le> length k"
    "rootPrefixes (take (removeRootLoop k 0) k)"
    "rootPrefixLength (drop (removeRootLoop k 0) k) = 0"
    by simp_all
  have "k = take (removeRootLoop k 0) k @ removeRootDirCharsFromS3Key k"
    by (simp add: removeRootDirCharsFromS3Key_def)
  with res show ?thesis
    unfolding removeRootDirCharsFromS3Key_def by blast
qed

theorem removeRootDirCharsFromS3Key_strips_witness:
  "\<exists>pre. ''//C:/x'' = pre @ ''x'' \<and> rootPrefixes pre \<and> rootPrefixLength ''x'' = 0"
  using removeRootDirCharsFromS3Key_strips [of "''//C:/x''"]
  by (simp only: removeRoot_example)

text \<open>
  Claim C8, as the specification has it, fails at the key \<open>c:/x\<close>: the lower-case drive
  prefix stays.
\<close>

theorem removeRootDirCharsFromS3Key_lowercase_drive:
  "removeRootDirCharsFromS3Key ''c:/x'' = ''c:/x''"
  by (simp add: removeRootDirCharsFromS3Key_def removeRootLoop.simps rootCharsAt_def charAt_def
        less_eq_char_def)


section \<open>The order of the remote list\<close>

text \<open>What \<open>getS3List\<close> returns is in the order of the original keys.\<close>

lemma getS3List_sorted_by_Key:
  "getS3List options responses = Inr listed \<Longrightarrow>
     sorted_wrt (\<lambda>a b. compareStringsUtf8BinaryOrder (Key a) (Key b) \<le> 0) listed"
  by (auto simp: getS3List_def arraySort_sorted split: sum.splits if_splits)

text \<open>
  Claim C3 at the listing with the keys \<open>/b\<close> and \<open>a\<close> (in that order, which is their byte
  order) and the root-prefix transformer: \<open>getS3List\<close> sorts by the original key, so the
  transformed keys come out as \<open>b\<close>, \<open>a\<close>, and \<open>b\<close> compares greater than \<open>a\<close>.
\<close>

theorem getS3List_sorted_by_original_key:
  "getS3List \<lparr>listSuffix = None, s3KeyTransformers = [removeRootDirCharsFromS3Key]\<rparr>
     [\<lparr>Contents = Some [\<lparr>Key = ''/b'', LastModified = 1, Size = 1\<rparr>,
                         \<lparr>Key = ''a'', LastModified = 1, Size = 1\<rparr>],
       NextContinuationToken = None\<rparr>]
   = Inr [\<lparr>Key = ''/b'', LastModified = 1, Size = 1, transformedKey = ''b''\<rparr>,
          \<lparr>Key = ''a'', LastModified = 1, Size = 1, transformedKey = ''a''\<rparr>] \<and>
   compareStringsUtf8BinaryOrder ''b'' ''a'' = 1"
  by (simp add: getS3List_def emptyBucketKeys_def inheritedNames_def addListedObject_def
        setTransformedKey_def applyTransformersToKey_def
        removeRootDirCharsFromS3Key_def removeRootLoop.simps rootCharsAt_def charAt_def
        arraySort_def less_eq_char_def less_char_def)


section \<open>Recursive removal and the mirror root\<close>

text \<open>
  Claim C9 at the mirror root \<open>/mirror\<close>: asked to remove \<open>/mirror/\<close>, or \<open>.\<close>, the call
  neither logs nor throws. It submits the recursive removal of \<open>/mirror\<close>, the mirror root
  itself, because the comparison that guards the root appends a separator to both of its sides
  whatever they end with and compares the unresolved argument.
\<close>

theorem rmdirRecursive_mirror_root:
  "rmdirRecursive cwd ''/mirror'' ''/mirror/'' q =
     Inr (submitPromiseTask ''/mirror'' (RmdirTask ''/mirror'') None q) \<and>
   rmdirRecursive cwd ''/mirror'' ''.'' q =
     Inr (submitPromiseTask ''/mirror'' (RmdirTask ''/mirror'') None q) \<and>
   pathResolve cwd [''/mirror''] = ''/mirror''"
  by (simp add: rmdirRecursive_def ensurePathEndsWithOsSeparator_def charAt_def pathSep_def
        pathResolve_def matchesWindowsRoot_def Let_def)

text \<open>
  The other half of the guard does what it says: a path that resolves to the root of the file
  system makes the call throw, and no task is submitted.
\<close>

lemma rmdirRecursive_file_system_root:
  "rmdirRecursive cwd ''/mirror'' ''..'' q = Inl (RootDirectoryRemoval ''/'')"
  by (simp add: rmdirRecursive_def ensurePathEndsWithOsSeparator_def charAt_def pathSep_def
        pathResolve_def matchesWindowsRoot_def Let_def)

lemma rmdirRecursive_never_root:
  "rmdirRecursive cwd rootDir relativeDirPath q = Inr q' \<Longrightarrow>
     q' = q \<or> (\<exists>p. p \<noteq> ''/'' \<and> q' = submitPromiseTask p (RmdirTask p) None q)"
  by (auto simp: rmdirRecursive_def Let_def split: if_splits)

section \<open>Properties of the notification ingress\<close>

text \<open>
  Claim C6 at a request whose body parses and whose signature the validator rejects, with
  validation enabled: no record is processed, and no response is sent either. The rejection of
  the validation promise is outside the \<open>try\<close> block that answers 500.
\<close>

theorem invalid_signature_gets_no_response:
  "defaultRequestListener False (\<lambda>chunks. Some parsed) (\<lambda>body. None) parseRecords
     snsNotificationListener chunks =
   \<lparr>statusCode = None, listenerCalls = [], confirmationSent = False, unhandledRejection = True\<rparr>"
  by (simp add: defaultRequestListener_def)

lemma processRecords_unsupported:
  "\<forall>r \<in> set before. \<not> unsupportedEventVersion (eventVersion r) \<Longrightarrow>
   unsupportedEventVersion (eventVersion bad) \<Longrightarrow>
   processRecords options (before @ bad # later) made =
     (fst (processRecords options before made), Some UnsupportedEventVersion) \<and>
   snd (processRecords options before made) = None"
  by (induction before arbitrary: made) (auto simp: Let_def)

text \<open>
  The version test on some versions. White space before a number is skipped, the no-break
  space too.
\<close>

lemma unsupportedEventVersion_examples:
  "unsupportedEventVersion ''1.0''"
  "unsupportedEventVersion ''2.0''"
  "unsupportedEventVersion ''2''"
  "\<not> unsupportedEventVersion ''2.1''"
  "\<not> unsupportedEventVersion ''2.x''"
  "\<not> unsupportedEventVersion ([CHR 0xC2, CHR 0xA0] @ ''2.1'')"
  "\<not> unsupportedEventVersion ([CHR 0xEF, CHR 0xBB, CHR 0xBF] @ '' 2.'' @ [CHR 0x09] @ ''3'')"
  by code_simp+

text \<open>
  Claim C7, as the code has it. The first record of a message whose event version is not
  supported makes the default notification listener throw: the records before it have been
  processed, the record itself and all records after it are not. This is so for a request
  whose signature was validated as for one whose validation is switched off: the calls made
  for the request are those of the records before the unsupported one.
\<close>

theorem unsupported_version_ends_message:
  assumes "\<forall>r \<in> set before. \<not> unsupportedEventVersion (eventVersion r)"
    and "unsupportedEventVersion (eventVersion bad)"
  shows "defaultSnsNotificationListener options (before @ bad # later) =
           (fst (defaultSnsNotificationListener options before), Some UnsupportedEventVersion) \<and>
         snd (defaultSnsNotificationListener options before) = None \<and>
         (jsonParse chunks = Some parsed \<and>
          (if ignoreMessageValidation then Some parsed else validateMessage parsed) = Some body \<and>
          bodyType body = ''Notification'' \<and>
          containsString ''Records'' (bodyMessage body) \<and>
          parseRecords (bodyMessage body) = Some (before @ bad # later) \<longrightarrow>
          listenerCalls
            (defaultRequestListener ignoreMessageValidation jsonParse validateMessage parseRecords
               (defaultSnsNotificationListener options) chunks) =
          fst (defaultSnsNotificationListener options before))"
proof -
  from processRecords_unsupported [OF assms(1,2), of options later "[]"]
  have l: "defaultSnsNotificationListener options (before @ bad # later) =
           (fst (defaultSnsNotificationListener options before), Some UnsupportedEventVersion)"
    and n: "snd (defaultSnsNotificationListener options before) = None"
    by (simp_all add: defaultSnsNotificationListener_def)
  have "listenerCalls
          (defaultRequestListener ignoreMessageValidation jsonParse validateMessage parseRecords
             (defaultSnsNotificationListener options) chunks) =
        fst (defaultSnsNotificationListener options before)"
    if "jsonParse chunks = Some parsed"
      and "(if ignoreMessageValidation then Some parsed else validateMessage parsed) = Some body"
      and "bodyType body = ''Notification''"
      and "containsString ''Records'' (bodyMessage body)"
      and "parseRecords (bodyMessage body) = Some (before @ bad # later)"
    using that l by (simp add: defaultRequestListener_def)
  with l n show ?thesis by blast
qed

theorem unsupported_version_ends_message_witness:
  "unsupportedEventVersion ''1.0'' \<and> \<not> unsupportedEventVersion ''2.1'' \<and>
   defaultSnsNotificationListener
     \<lparr>bucket = ''b'', keyPrefix = None, keySuffix = None, keyTransformers = []\<rparr>
     [\<lparr>eventName = ''ObjectCreated:Put'', eventVersion = ''2.1'', bucketName = ''b'',
        objectKey = ''0.txt''\<rparr>,
      \<lparr>eventName = ''ObjectCreated:Put'', eventVersion = ''1.0'', bucketName = ''b'',
        objectKey = ''1.txt''\<rparr>,
      \<lparr>eventName = ''ObjectRemoved:Delete'', eventVersion = ''2.1'', bucketName = ''b'',
        objectKey = ''z.txt''\<rparr>]
   = ([WriteS3Object ''0.txt'' ''0.txt''], Some UnsupportedEventVersion) \<and>
   listenerCalls
     (defaultRequestListener False
        (\<lambda>chunks. Some \<lparr>bodyType = ''Notification'', bodyMessage = ''Records'', bodyToken = [],
           bodyTopicArn = []\<rparr>)
        (\<lambda>body. Some body)
        (\<lambda>message.
           Some [\<lparr>eventName = ''ObjectCreated:Put'', eventVersion = ''2.1'', bucketName = ''b'',
                   objectKey = ''0.txt''\<rparr>,
                 \<lparr>eventName = ''ObjectCreated:Put'', eventVersion = ''1.0'', bucketName = ''b'',
                   objectKey = ''1.txt''\<rparr>,
                 \<lparr>eventName = ''ObjectRemoved:Delete'', eventVersion = ''2.1'', bucketName = ''b'',
                   objectKey = ''z.txt''\<rparr>])
        (defaultSnsNotificationListener
           \<lparr>bucket = ''b'', keyPrefix = None, keySuffix = None, keyTransformers = []\<rparr>)
        [])
   = [WriteS3Object ''0.txt'' ''0.txt'']"
proof -
  let ?o = "\<lparr>bucket = ''b'', keyPrefix = None, keySuffix = None, keyTransformers = []\<rparr>"
  let ?r0 = "\<lparr>eventName = ''ObjectCreated:Put'', eventVersion = ''2.1'', bucketName = ''b'',
        objectKey = ''0.txt''\<rparr>"
  let ?r1 = "\<lparr>eventName = ''ObjectCreated:Put'', eventVersion = ''1.0'', bucketName = ''b'',
        objectKey = ''1.txt''\<rparr>"
  let ?r2 = "\<lparr>eventName = ''ObjectRemoved:Delete'', eventVersion = ''2.1'', bucketName = ''b'',
        objectKey = ''z.txt''\<rparr>"
  let ?body = "\<lparr>bodyType = ''Notification'', bodyMessage = ''Records'', bodyToken = [],
        bodyTopicArn = []\<rparr>"
  let ?jsonParse = "\<lambda>chunks :: string. Some ?body"
  let ?validateMessage = "\<lambda>body :: SnsBody. Some body"
  let ?parseRecords = "\<lambda>message :: string. Some [?r0, ?r1, ?r2]"
  have bad: "unsupportedEventVersion ''1.0''"
    by code_simp
  have good: "\<not> unsupportedEventVersion ''2.1''"
    by code_simp
  have h1: "\<forall>r \<in> set [?r0]. \<not> unsupportedEventVersion (eventVersion r)"
    using good by simp
  have h2: "unsupportedEventVersion (eventVersion ?r1)"
    using bad by simp
  have before: "defaultSnsNotificationListener ?o [?r0] = ([WriteS3Object ''0.txt'' ''0.txt''], None)"
    using good
    by (simp add: defaultSnsNotificationListener_def filteredOut_def applyTransformersToKey_def)
  from unsupported_version_ends_message [OF h1 h2, of ?o "[?r2]" ?jsonParse "[]" ?body False
      ?validateMessage ?body ?parseRecords] before
  have "defaultSnsNotificationListener ?o [?r0, ?r1, ?r2] =
          ([WriteS3Object ''0.txt'' ''0.txt''], Some UnsupportedEventVersion) \<and>
        listenerCalls
          (defaultRequestListener False ?jsonParse ?validateMessage ?parseRecords
             (defaultSnsNotificationListener ?o) []) = [WriteS3Object ''0.txt'' ''0.txt'']"
    by simp
  with bad good show ?thesis by simp
qed

text \<open>
  Claim C7, as the specification has it, fails at a message of two records of which the first
  has event version 1.0, in a request whose signature is valid. The second record, a supported
  creation, is not processed: the listener makes no call. And the ingress does not go on: the
  error of the listener ends the request in a rejection that nobody handles, on which the
  process runs its shutdown hook, the one that closes the server, and exits with code 1.
\<close>

theorem unsupported_version_remaining_records:
  "defaultSnsNotificationListener
     \<lparr>bucket = ''b'', keyPrefix = None, keySuffix = None, keyTransformers = []\<rparr>
     [\<lparr>eventName = ''ObjectCreated:Put'', eventVersion = ''1.0'', bucketName = ''b'',
        objectKey = ''1.txt''\<rparr>,
      \<lparr>eventName = ''ObjectCreated:Put'', eventVersion = ''2.1'', bucketName = ''b'',
        objectKey = ''2.txt''\<rparr>]
   = ([], Some UnsupportedEventVersion) \<and>
   afterRequest 1
     (defaultRequestListener False
        (\<lambda>chunks. Some \<lparr>bodyType = ''Notification'', bodyMessage = ''Records'', bodyToken = [],
           bodyTopicArn = []\<rparr>)
        (\<lambda>body. Some body)
        (\<lambda>message.
           Some [\<lparr>eventName = ''ObjectCreated:Put'', eventVersion = ''1.0'', bucketName = ''b'',
                   objectKey = ''1.txt''\<rparr>,
                 \<lparr>eventName = ''ObjectCreated:Put'', eventVersion = ''2.1'', bucketName = ''b'',
                   objectKey = ''2.txt''\<rparr>])
        (defaultSnsNotificationListener
           \<lparr>bucket = ''b'', keyPrefix = None, keySuffix = None, keyTransformers = []\<rparr>)
        [])
   = Exited 1"
proof -
  have bad: "unsupportedEventVersion ''1.0''"
    by code_simp
  then show ?thesis
    by (simp add: defaultSnsNotificationListener_def defaultRequestListener_def
          afterRequest_def runHooks_def)
qed

section \<open>Properties of the queue\<close>

lemma objectSet_keys: "fst ` set (objectSet m k v) = insert k (fst ` set m)"
  by (induction m) auto

lemma objectSet_distinct:
  "distinct (map fst m) \<Longrightarrow> distinct (map fst (objectSet m k v))"
proof (induction m)
  case Nil
  then show ?case by simp
next
  case (Cons kv m)
  have "fst kv \<noteq> k \<Longrightarrow> fst kv \<notin> fst ` set (objectSet m k v)"
    using Cons.prems by (simp add: objectSet_keys)
  with Cons show ?case by auto
qed

lemma objectSet_length:
  "length (objectSet m k v) = (if map_of m k = None then Suc (length m) else length m)"
  by (induction m) auto

lemma map_of_objectSet:
  "map_of (objectSet m k v) k' = (if k' = k then Some v else map_of m k')"
  by (induction m) auto

lemma objectDelete_distinct:
  "distinct (map fst m) \<Longrightarrow> distinct (map fst (objectDelete m k))"
  by (simp add: objectDelete_def distinct_map_filter)

lemma objectDelete_length:
  "distinct (map fst m) \<Longrightarrow> map_of m k = Some v \<Longrightarrow>
     Suc (length (objectDelete m k)) = length m"
proof (induction m)
  case Nil
  then show ?case by simp
next
  case (Cons kv m)
  show ?case
  proof (cases "fst kv = k")
    case True
    with Cons.prems have "k \<notin> fst ` set m" by auto
    then have "filter (\<lambda>kv. fst kv \<noteq> k) m = m"
      by (auto simp: filter_id_conv)
    with True show ?thesis by (simp add: objectDelete_def)
  next
    case False
    with Cons show ?thesis by (simp add: objectDelete_def)
  qed
qed

lemma map_of_objectDelete:
  "map_of (objectDelete m k) k' = (if k' = k then None else map_of m k')"
  by (induction m) (auto simp: objectDelete_def)

lemma removeRunningTask_eq:
  "removeRunningTask k i q =
     (case map_of (runningTasks q) k of
        None \<Rightarrow> q
      | Some runningTask \<Rightarrow>
          if runningId runningTask = i
          then q\<lparr>runningTasks := objectDelete (runningTasks q) k, runCount := runCount q - 1\<rparr>
          else q)"
  by (simp add: removeRunningTask_def objectGet_def split: option.splits)

lemma reapKeys_Cons:
  "reapKeys currentTime (k # ks) q =
     reapKeys currentTime ks
       (case map_of (runningTasks q) k of
          None \<Rightarrow> q
        | Some runningTask \<Rightarrow>
            (case expiration runningTask of
               None \<Rightarrow> q
             | Some ex \<Rightarrow>
                 if ex - currentTime \<le> 0 then removeRunningTask k (runningId runningTask) q
                 else q))"
  by (simp add: objectGet_def split: option.splits)

lemma mayRun_eq:
  "mayRun clock t q =
     (case map_of (runningTasks q) (itemKey t) of
        None \<Rightarrow> (itemKey t \<notin> set objectPrototypeNames, q)
      | Some runningTaskForKey \<Rightarrow>
          (case expiration runningTaskForKey of
             None \<Rightarrow> (False, q)
           | Some ex \<Rightarrow> (let (now, q1) = dateNow clock q in (ex - now \<le> 0, q1))))"
  by (simp add: mayRun_def objectGet_def split: option.splits)

lemma mayRun_hadNone:
  "mayRun clock t q = (True, q1) \<Longrightarrow>
     (objectGet (runningTasks q) (itemKey t) = Undefined) =
     (map_of (runningTasks q) (itemKey t) = None)"
  by (auto simp: mayRun_eq objectGet_def split: option.splits)

lemma removeRunningTask_fields:
  "maxConcurrency (removeRunningTask k i q) = maxConcurrency q"
  "peakRunning (removeRunningTask k i q) = peakRunning q"
  "runScheduled (removeRunningTask k i q) = runScheduled q"
  "shutdown (removeRunningTask k i q) = shutdown q"
  "shutdownImmediately (removeRunningTask k i q) = shutdownImmediately q"
  "catchErrors (removeRunningTask k i q) = catchErrors q"
  "queueSize (removeRunningTask k i q) = queueSize q"
  "started (removeRunningTask k i q) = started q"
  "pending (removeRunningTask k i q) = pending q"
  "runId (removeRunningTask k i q) = runId q"
  "queueItems (removeRunningTask k i q) = queueItems q"
  "reaperIntervalMillis (removeRunningTask k i q) = reaperIntervalMillis q"
  by (simp_all add: removeRunningTask_eq split: option.splits)

lemma removeRunningTask_table:
  assumes "distinct (map fst (runningTasks q))"
  shows "distinct (map fst (runningTasks (removeRunningTask k i q)))"
    and "int (length (runningTasks (removeRunningTask k i q))) - runCount (removeRunningTask k i q)
           = int (length (runningTasks q)) - runCount q"
    and "length (runningTasks (removeRunningTask k i q)) \<le> length (runningTasks q)"
proof -
  show "distinct (map fst (runningTasks (removeRunningTask k i q)))"
    using assms by (simp add: removeRunningTask_eq objectDelete_distinct split: option.splits)
  show "int (length (runningTasks (removeRunningTask k i q))) - runCount (removeRunningTask k i q)
           = int (length (runningTasks q)) - runCount q"
  proof (cases "map_of (runningTasks q) k")
    case None
    then show ?thesis by (simp add: removeRunningTask_eq)
  next
    case (Some rt)
    from objectDelete_length [OF assms Some]
    have "int (length (objectDelete (runningTasks q) k)) = int (length (runningTasks q)) - 1"
      by linarith
    with Some show ?thesis by (simp add: removeRunningTask_eq)
  qed
  show "length (runningTasks (removeRunningTask k i q)) \<le> length (runningTasks q)"
    by (simp add: removeRunningTask_eq objectDelete_def split: option.splits)
qed

lemma mayRun_fields:
  assumes "mayRun clock t q = (ok, q1)"
  shows "runningTasks q1 = runningTasks q" "runCount q1 = runCount q"
    "maxConcurrency q1 = maxConcurrency q" "peakRunning q1 = peakRunning q"
    "runScheduled q1 = runScheduled q" "shutdown q1 = shutdown q"
    "shutdownImmediately q1 = shutdownImmediately q" "catchErrors q1 = catchErrors q"
    "queueSize q1 = queueSize q" "started q1 = started q" "pending q1 = pending q"
    "runId q1 = runId q"
  using assms
  by (auto simp: mayRun_eq dateNow_def Let_def split: option.splits)

lemma registerRun_fields:
  assumes "registerRun clock t q1 = (i, q2)"
  shows "i = runId q1" "runId q2 = Suc (runId q1)"
    "\<exists>ex. runningTasks q2 = objectSet (runningTasks q1) (itemKey t) \<lparr>expiration = ex, runningId = i\<rparr>"
    "peakRunning q2 = max (peakRunning q1) (length (runningTasks q2))"
    "runCount q2 = runCount q1" "maxConcurrency q2 = maxConcurrency q1"
    "runScheduled q2 = runScheduled q1" "shutdown q2 = shutdown q1"
    "shutdownImmediately q2 = shutdownImmediately q1" "catchErrors q2 = catchErrors q1"
    "queueSize q2 = queueSize q1" "started q2 = started q1 @ [(i, t)]" "pending q2 = pending q1"
  using assms
  by (auto simp: registerRun_def dateNow_def Let_def split: option.splits prod.splits)

lemma callTask_invariant:
  assumes inv: "loopInvariant q1"
    and room: "runCount q1 < \<lceil>maxConcurrency q1\<rceil>"
    and res: "callTask clock behaviour t (map_of (runningTasks q1) (itemKey t) = None) q1 = (uncaught, q')"
  shows "distinct (map fst (runningTasks q'))"
    and "int (length (runningTasks q')) \<le> \<lceil>maxConcurrency q'\<rceil>"
    and "int (peakRunning q') \<le> \<lceil>maxConcurrency q'\<rceil>"
    and "\<not> uncaught \<longrightarrow> runCount q' = int (length (runningTasks q'))"
    and "maxConcurrency q' = maxConcurrency q1"
    and "shutdown q' = shutdown q1" and "shutdownImmediately q' = shutdownImmediately q1"
proof -
  let ?k = "itemKey t"
  let ?hadNone = "map_of (runningTasks q1) ?k = None"
  obtain i q2 where reg: "registerRun clock t q1 = (i, q2)"
    by (cases "registerRun clock t q1")
  note rf = registerRun_fields [OF reg]
  from rf(3) obtain ex where tab: "runningTasks q2 =
      objectSet (runningTasks q1) ?k \<lparr>expiration = ex, runningId = i\<rparr>" by blast
  from inv have d1: "distinct (map fst (runningTasks q1))"
    and c1: "runCount q1 = int (length (runningTasks q1))"
    and p1: "int (peakRunning q1) \<le> \<lceil>maxConcurrency q1\<rceil>"
    by (simp_all add: loopInvariant_def)
  have d2: "distinct (map fst (runningTasks q2))"
    using d1 tab by (simp add: objectSet_distinct)
  have len2: "int (length (runningTasks q2)) =
      int (length (runningTasks q1)) + (if ?hadNone then 1 else 0)"
    using tab by (simp add: objectSet_length)
  have bound2: "int (length (runningTasks q2)) \<le> \<lceil>maxConcurrency q1\<rceil>"
    using len2 c1 room by (simp split: if_splits)
  have peak2: "int (peakRunning q2) \<le> \<lceil>maxConcurrency q1\<rceil>"
    using rf(4) p1 bound2 by (simp add: max_def)
  define called where "called = calledDuringCall (itemWrapper t) (behaviour i)"
  define threw where "threw = threwDuringCall (behaviour i)"
  define q3 where "q3 = (if called then removeRunningTask ?k i q2 else q2)"
  define q4 where "q4 = (if threw then removeRunningTask ?k i q3 else q3)"
  have d3: "distinct (map fst (runningTasks q3))"
    using d2 removeRunningTask_table(1) [OF d2] by (simp add: q3_def)
  have s3: "int (length (runningTasks q3)) - runCount q3 =
      int (length (runningTasks q2)) - runCount q2"
    using removeRunningTask_table(2) [OF d2] by (simp add: q3_def)
  have l3: "length (runningTasks q3) \<le> length (runningTasks q2)"
    using removeRunningTask_table(3) [OF d2] by (simp add: q3_def)
  have f3: "maxConcurrency q3 = maxConcurrency q1" "peakRunning q3 = peakRunning q2"
    "shutdown q3 = shutdown q1" "shutdownImmediately q3 = shutdownImmediately q1"
    using rf by (simp_all add: q3_def removeRunningTask_fields)
  have d4: "distinct (map fst (runningTasks q4))"
    using d3 removeRunningTask_table(1) [OF d3] by (simp add: q4_def)
  have s4: "int (length (runningTasks q4)) - runCount q4 =
      int (length (runningTasks q2)) - runCount q2"
    using s3 removeRunningTask_table(2) [OF d3] by (simp add: q4_def)
  have l4: "length (runningTasks q4) \<le> length (runningTasks q2)"
    using l3 removeRunningTask_table(3) [OF d3, of ?k i] by (simp add: q4_def)
  have f4: "maxConcurrency q4 = maxConcurrency q1" "peakRunning q4 = peakRunning q2"
    "shutdown q4 = shutdown q1" "shutdownImmediately q4 = shutdownImmediately q1"
    using f3 by (simp_all add: q4_def removeRunningTask_fields)
  have slack: "int (length (runningTasks q4)) - runCount q4 = (if ?hadNone then 1 else 0)"
    using s4 len2 c1 rf(5) by simp
  have out: "(uncaught, q') =
      (if threw \<and> \<not> catchErrors q3 then (True, q3)
       else (False, q4\<lparr>queueSize := queueSize q4 - 1,
                       runCount := (if ?hadNone then runCount q4 + 1 else runCount q4),
                       pending := (if called \<or> threw then pending q4
                                   else pending q4 @ [(i, t)])\<rparr>))"
    using res reg unfolding callTask_def Let_def q3_def q4_def called_def threw_def
    by simp
  show "distinct (map fst (runningTasks q'))"
    using out d3 d4 by (auto split: if_splits)
  show "int (length (runningTasks q')) \<le> \<lceil>maxConcurrency q'\<rceil>"
    using out l3 l4 bound2 f3 f4 by (auto split: if_splits)
  show "int (peakRunning q') \<le> \<lceil>maxConcurrency q'\<rceil>"
    using out peak2 f3 f4 by (auto split: if_splits)
  show "\<not> uncaught \<longrightarrow> runCount q' = int (length (runningTasks q'))"
    using out slack by (auto split: if_splits)
  show "maxConcurrency q' = maxConcurrency q1"
    using out f3 f4 by (auto split: if_splits)
  show "shutdown q' = shutdown q1"
    using out f3 f4 by (auto split: if_splits)
  show "shutdownImmediately q' = shutdownImmediately q1"
    using out f3 f4 by (auto split: if_splits)
qed

lemma runLoop_invariant:
  "loopInvariant q \<Longrightarrow>
     queueInvariant (runLoop clock behaviour todo unrun ranNow q) \<and>
     maxConcurrency (runLoop clock behaviour todo unrun ranNow q) = maxConcurrency q"
proof (induction todo arbitrary: unrun ranNow q)
  case Nil
  then show ?case by (simp add: loopInvariant_def queueInvariant_def)
next
  case (Cons t rest)
  show ?case
  proof (cases "of_int (runCount q) < maxConcurrency q \<and> \<not> shutdownImmediately q")
    case False
    with Cons.prems show ?thesis
      by (auto simp: loopInvariant_def queueInvariant_def)
  next
    case True
    obtain ok q1 where mr: "mayRun clock t q = (ok, q1)"
      by (cases "mayRun clock t q")
    note mf = mayRun_fields [OF mr]
    have inv1: "loopInvariant q1"
      using Cons.prems mf by (simp add: loopInvariant_def)
    show ?thesis
    proof (cases ok)
      case False
      with True mr Cons.IH [OF inv1] mf show ?thesis by simp
    next
      case ok: True
      have hn: "(objectGet (runningTasks q) (itemKey t) = Undefined) =
          (map_of (runningTasks q1) (itemKey t) = None)"
        using mayRun_hadNone [of clock t q q1] mr ok mf by simp
      obtain uncaught q' where ct:
        "callTask clock behaviour t (map_of (runningTasks q1) (itemKey t) = None) q1 = (uncaught, q')"
        by (cases "callTask clock behaviour t (map_of (runningTasks q1) (itemKey t) = None) q1")
      have room: "runCount q1 < \<lceil>maxConcurrency q1\<rceil>"
        using True mf by (simp add: less_ceiling_iff)
      note cf = callTask_invariant [OF inv1 room ct]
      show ?thesis
      proof (cases uncaught)
        case True
        have "runLoop clock behaviour (t # rest) unrun ranNow q =
            q'\<lparr>queueItems := (if unrun = [] then t # rest else unrun @ ranNow @ t # rest),
               runScheduled := False\<rparr>"
          using \<open>of_int (runCount q) < maxConcurrency q \<and> \<not> shutdownImmediately q\<close> mr ok ct True
            mf hn
          by simp
        with cf mf show ?thesis by (simp add: queueInvariant_def)
      next
        case False
        have step: "runLoop clock behaviour (t # rest) unrun ranNow q =
            runLoop clock behaviour rest unrun (ranNow @ [t]) q'"
          using True mr ok ct False mf hn by simp
        have "loopInvariant q'" using cf False by (simp add: loopInvariant_def)
        from Cons.IH [OF this] step cf mf show ?thesis by simp
      qed
    qed
  qed
qed

lemma reapKeys_table:
  "distinct (map fst (runningTasks q)) \<Longrightarrow>
     distinct (map fst (runningTasks (reapKeys currentTime ks q))) \<and>
     int (length (runningTasks (reapKeys currentTime ks q))) - runCount (reapKeys currentTime ks q)
       = int (length (runningTasks q)) - runCount q \<and>
     length (runningTasks (reapKeys currentTime ks q)) \<le> length (runningTasks q) \<and>
     maxConcurrency (reapKeys currentTime ks q) = maxConcurrency q \<and>
     peakRunning (reapKeys currentTime ks q) = peakRunning q \<and>
     runScheduled (reapKeys currentTime ks q) = runScheduled q"
proof (induction ks arbitrary: q)
  case Nil
  then show ?case by simp
next
  case (Cons k ks)
  define q1 where "q1 =
       (case map_of (runningTasks q) k of
          None \<Rightarrow> q
        | Some runningTask \<Rightarrow>
            (case expiration runningTask of
               None \<Rightarrow> q
             | Some ex \<Rightarrow>
                 if ex - currentTime \<le> 0 then removeRunningTask k (runningId runningTask) q
                 else q))"
  have step: "reapKeys currentTime (k # ks) q = reapKeys currentTime ks q1"
    unfolding q1_def by (rule reapKeys_Cons)
  note rt = removeRunningTask_table [OF Cons.prems]
  have one: "distinct (map fst (runningTasks q1)) \<and>
     int (length (runningTasks q1)) - runCount q1 = int (length (runningTasks q)) - runCount q \<and>
     length (runningTasks q1) \<le> length (runningTasks q) \<and>
     maxConcurrency q1 = maxConcurrency q \<and> peakRunning q1 = peakRunning q \<and>
     runScheduled q1 = runScheduled q"
    using Cons.prems rt
    by (simp add: q1_def removeRunningTask_fields split: option.splits)
  from Cons.IH [of q1] one show ?case
    unfolding step by simp
qed

lemma queueStep_invariant:
  assumes "queueInvariant q"
  shows "queueInvariant (queueStep clock behaviour q ev) \<and>
         maxConcurrency (queueStep clock behaviour q ev) = maxConcurrency q"
proof -
  from assms have d: "distinct (map fst (runningTasks q))"
    and b: "int (length (runningTasks q)) \<le> \<lceil>maxConcurrency q\<rceil>"
    and p: "int (peakRunning q) \<le> \<lceil>maxConcurrency q\<rceil>"
    and c: "runScheduled q \<longrightarrow> runCount q = int (length (runningTasks q))"
    by (simp_all add: queueInvariant_def)
  have removal: "queueInvariant (removeRunningTask k i (q\<lparr>pending := ps\<rparr>)) \<and>
      maxConcurrency (removeRunningTask k i (q\<lparr>pending := ps\<rparr>)) = maxConcurrency q" for k i ps
  proof -
    have d': "distinct (map fst (runningTasks (q\<lparr>pending := ps\<rparr>)))" using d by simp
    from removeRunningTask_table [OF d', of k i] b p c
    show ?thesis
      by (auto simp: queueInvariant_def removeRunningTask_fields)
  qed
  have pend: "queueInvariant (q\<lparr>pending := ps\<rparr>)" for ps
    using assms by (simp add: queueInvariant_def)
  show ?thesis
  proof (cases ev)
    case (Submit k t timeoutArg)
    with assms show ?thesis
      by (simp add: submit_def submitWrapped_def queueInvariant_def)
  next
    case (SubmitPromiseTask k t timeoutArg)
    with assms show ?thesis
      by (simp add: submitPromiseTask_def submitWrapped_def queueInvariant_def)
  next
    case RunFires
    show ?thesis
    proof (cases "runScheduled q")
      case True
      with d b p c have "loopInvariant q" by (simp add: loopInvariant_def)
      from runLoop_invariant [OF this] True RunFires show ?thesis
        by (simp add: runFires_def)
    next
      case False
      with assms RunFires show ?thesis by (simp add: runFires_def)
    qed
  next
    case ReapFires
    show ?thesis
    proof (cases "reapScheduled q")
      case True
      let ?q1 = "q\<lparr>clockReads := Suc (clockReads q)\<rparr>"
      have d1: "distinct (map fst (runningTasks ?q1))" using d by simp
      from reapKeys_table [OF d1, of "clock (clockReads q)" "map fst (runningTasks q)"] b p c
      show ?thesis using True ReapFires
        by (auto simp: reapFires_def dateNow_def queueInvariant_def Let_def)
    next
      case False
      with assms ReapFires show ?thesis by (simp add: reapFires_def)
    qed
  next
    case (CompletesLater i)
    with assms removal show ?thesis
      by (simp add: completesLater_def split: option.splits)
  next
    case (PromiseSettles i resolved)
    with assms removal pend show ?thesis
      by (simp add: promiseSettles_def Let_def split: option.splits TaskWrapper.splits)
  next
    case (Stop immediately timeoutArg)
    with assms show ?thesis by (simp add: stop_def queueInvariant_def)
  next
    case StopTimerFires
    with assms show ?thesis by (simp add: stopTimerFires_def queueInvariant_def)
  qed
qed

lemma queueAfter_invariant:
  "queueInvariant q \<Longrightarrow>
     queueInvariant (queueAfter clock behaviour q events) \<and>
     maxConcurrency (queueAfter clock behaviour q events) = maxConcurrency q"
proof (induction events arbitrary: q)
  case Nil
  then show ?case by (simp add: queueAfter_def)
next
  case (Cons ev events)
  from queueStep_invariant [OF Cons.prems, of clock behaviour ev]
  have "queueInvariant (queueStep clock behaviour q ev)"
    and m: "maxConcurrency (queueStep clock behaviour q ev) = maxConcurrency q"
    by simp_all
  from Cons.IH [OF this(1)] m show ?case
    by (simp add: queueAfter_def)
qed

text \<open>
  Claim C5, for a cap that is not negative. After any sequence of submissions, dispatch
  passes, completions, sweeps of the reaper and stops on a new queue, the running-task table
  has distinct keys and at most \<open>maxConcurrency\<close> entries, \<open>maxConcurrency\<close> rounded up when
  it is not a whole number; it never had more at any moment before, since \<open>peakRunning\<close> is
  taken each time the dispatch loop writes an entry.
\<close>

theorem running_tasks_within_cap:
  assumes "0 \<le> orDefault (optMaxConcurrency options) 300"
    and "q = queueAfter clock behaviour (newAsyncOpQueue options) events"
  shows "maxConcurrency q = orDefault (optMaxConcurrency options) 300 \<and>
         distinct (map fst (runningTasks q)) \<and>
         int (length (runningTasks q)) \<le> \<lceil>maxConcurrency q\<rceil> \<and>
         int (peakRunning q) \<le> \<lceil>maxConcurrency q\<rceil> \<and>
         (maxConcurrency q \<in> \<int> \<longrightarrow>
            real (length (runningTasks q)) \<le> maxConcurrency q \<and>
            real (peakRunning q) \<le> maxConcurrency q)"
proof -
  have "queueInvariant (newAsyncOpQueue options :: 'a AsyncOpQueue)"
    using assms(1) by (simp add: queueInvariant_def newAsyncOpQueue_def)
  from queueAfter_invariant [OF this, of clock behaviour events]
  have inv: "queueInvariant q"
    and m: "maxConcurrency q = orDefault (optMaxConcurrency options) 300"
    unfolding assms(2) by (simp_all add: newAsyncOpQueue_def)
  from inv have d: "distinct (map fst (runningTasks q))"
    and l: "int (length (runningTasks q)) \<le> \<lceil>maxConcurrency q\<rceil>"
    and p: "int (peakRunning q) \<le> \<lceil>maxConcurrency q\<rceil>"
    by (simp_all add: queueInvariant_def)
  have "real (length (runningTasks q)) \<le> maxConcurrency q \<and>
        real (peakRunning q) \<le> maxConcurrency q" if "maxConcurrency q \<in> \<int>"
  proof -
    from that obtain z :: int where z: "maxConcurrency q = of_int z"
      by (auto elim: Ints_cases)
    with l p have "int (length (runningTasks q)) \<le> z" "int (peakRunning q) \<le> z"
      by simp_all
    then have "real_of_int (int (length (runningTasks q))) \<le> real_of_int z"
      "real_of_int (int (peakRunning q)) \<le> real_of_int z"
      by (simp_all only: of_int_le_iff)
    with z show ?thesis by simp
  qed
  with m d l p show ?thesis by blast
qed

theorem running_tasks_within_cap_witness:
  "(0::real) \<le> orDefault (Some 2) 300 \<and>
   length (runningTasks (queueAfter (\<lambda>n. 0) (\<lambda>i. Returns)
      (newAsyncOpQueue \<lparr>optMaxConcurrency = Some 2, optDefaultTaskRunTimeoutMillis = None,
         optTaskReaperIntervalMillis = None, optCatchErrors = None\<rparr>)
      [Submit ''key1'' (1::nat) None, Submit ''key2'' 2 None, Submit ''key3'' 3 None,
       RunFires, RunFires])) = 2 \<and>
   int (peakRunning (queueAfter (\<lambda>n. 0) (\<lambda>i. Returns)
      (newAsyncOpQueue \<lparr>optMaxConcurrency = Some 2, optDefaultTaskRunTimeoutMillis = None,
         optTaskReaperIntervalMillis = None, optCatchErrors = None\<rparr>)
      [Submit ''key1'' (1::nat) None, Submit ''key2'' 2 None, Submit ''key3'' 3 None,
       RunFires, RunFires])) \<le> 2"
proof -
  let ?o = "\<lparr>optMaxConcurrency = Some 2, optDefaultTaskRunTimeoutMillis = None,
         optTaskReaperIntervalMillis = None, optCatchErrors = None\<rparr>"
  let ?q = "queueAfter (\<lambda>n. 0) (\<lambda>i. Returns) (newAsyncOpQueue ?o)
      [Submit ''key1'' (1::nat) None, Submit ''key2'' 2 None, Submit ''key3'' 3 None,
       RunFires, RunFires]"
  have h: "0 \<le> orDefault (optMaxConcurrency ?o) 300"
    by (simp add: orDefault_def)
  have l: "length (runningTasks ?q) = 2"
    by code_simp
  from running_tasks_within_cap [OF h refl, of "\<lambda>n. 0" "\<lambda>i. Returns"
      "[Submit ''key1'' (1::nat) None, Submit ''key2'' 2 None, Submit ''key3'' 3 None,
       RunFires, RunFires]"]
  have "int (peakRunning ?q) \<le> 2"
    by (auto simp: orDefault_def)
  with l show ?thesis by (simp add: orDefault_def)
qed

text \<open>
  Claim C5, as the specification has it, fails at a negative cap and at a fractional one. A
  queue made with \<open>maxConcurrency\<close> -1, which the constructor and the command line keep,
  never starts a task, and its empty table already has more entries than the cap. A queue
  made with \<open>maxConcurrency\<close> 2.5 starts a third task when two are running, since 2 is less
  than 2.5, and its table then has three entries.
\<close>

theorem running_tasks_exceed_cap:
  "maxConcurrency (queueAfter (\<lambda>n. 0) (\<lambda>i. Returns)
      (newAsyncOpQueue \<lparr>optMaxConcurrency = Some (- 1), optDefaultTaskRunTimeoutMillis = None,
         optTaskReaperIntervalMillis = None, optCatchErrors = None\<rparr>)
      [Submit ''key1'' (1::nat) None, RunFires]) = - 1 \<and>
   length (runningTasks (queueAfter (\<lambda>n. 0) (\<lambda>i. Returns)
      (newAsyncOpQueue \<lparr>optMaxConcurrency = Some (- 1), optDefaultTaskRunTimeoutMillis = None,
         optTaskReaperIntervalMillis = None, optCatchErrors = None\<rparr>)
      [Submit ''key1'' (1::nat) None, RunFires])) = 0 \<and>
   maxConcurrency (queueAfter (\<lambda>n. 0) (\<lambda>i. Returns)
      (newAsyncOpQueue \<lparr>optMaxConcurrency = Some (5 / 2), optDefaultTaskRunTimeoutMillis = None,
         optTaskReaperIntervalMillis = None, optCatchErrors = None\<rparr>)
      [Submit ''key1'' (1::nat) None, Submit ''key2'' 2 None, Submit ''key3'' 3 None,
       RunFires]) = 5 / 2 \<and>
   length (runningTasks (queueAfter (\<lambda>n. 0) (\<lambda>i. Returns)
      (newAsyncOpQueue \<lparr>optMaxConcurrency = Some (5 / 2), optDefaultTaskRunTimeoutMillis = None,
         optTaskReaperIntervalMillis = None, optCatchErrors = None\<rparr>)
      [Submit ''key1'' (1::nat) None, Submit ''key2'' 2 None, Submit ''key3'' 3 None,
       RunFires])) = 3"
  by code_simp

text \<open>
  The sixth end-to-end scenario of the specification: three tasks of \<open>key1\<close> (10, 11, 12)
  submitted between tasks of \<open>key2\<close> and \<open>key3\<close>, none with a timeout, each completing
  after its call. The tasks of \<open>key1\<close> start in the order of their submission.
\<close>

lemma per_key_order_scenario:
  "map (\<lambda>x. itemTask (snd x))
     (started (queueAfter (\<lambda>n. 0) (\<lambda>i. Returns)
        (newAsyncOpQueue \<lparr>optMaxConcurrency = None, optDefaultTaskRunTimeoutMillis = None,
           optTaskReaperIntervalMillis = None, optCatchErrors = None\<rparr>)
        [Submit ''key1'' (10::nat) None, Submit ''key2'' 20 None, Submit ''key1'' 11 None,
         Submit ''key3'' 30 None, Submit ''key1'' 12 None,
         RunFires, CompletesLater 0, RunFires, CompletesLater 3, RunFires]))
   = [10, 20, 30, 11, 12]"
  by code_simp

text \<open>
  Claim C4 at three tasks of one key: task 1 with a timeout of 5 ms, then task 2, then task 3.
  The first pass starts task 1 at time 0. In the second pass the clock reads 4 when task 2 is
  tested, so task 2 is skipped, and 5 when task 3 is tested, so task 3 takes the expired slot.
  Task 2 starts only after task 3 has completed: the tasks of the key start in the order 1, 3, 2.
\<close>

theorem later_task_starts_first:
  "map (\<lambda>x. itemTask (snd x))
     (started (queueAfter (\<lambda>n. if n < 3 then 0 else if n = 3 then 4 else 5) (\<lambda>i. Returns)
        (newAsyncOpQueue \<lparr>optMaxConcurrency = None, optDefaultTaskRunTimeoutMillis = None,
           optTaskReaperIntervalMillis = None, optCatchErrors = None\<rparr>)
        [Submit ''k'' (1::nat) (Some 5), Submit ''k'' 2 None, Submit ''k'' 3 None,
         RunFires, RunFires, CompletesLater 1, RunFires]))
   = [1, 3, 2]"
  by code_simp

lemma startsOthers_refl: "started q' = started q \<Longrightarrow> startsOthers k q q'"
  by (simp add: startsOthers_def)

lemma startsOthers_trans:
  "startsOthers k q q1 \<Longrightarrow> startsOthers k q1 q2 \<Longrightarrow> startsOthers k q q2"
  by (auto simp: startsOthers_def)

lemma map_of_filter_other:
  "i \<noteq> j \<Longrightarrow> map_of (filter (\<lambda>p. fst p \<noteq> j) ps) i = map_of ps i"
  by (induction ps) auto

lemma map_of_filter_same: "map_of (filter (\<lambda>p. fst p \<noteq> j) ps) j = None"
  by (induction ps) auto

lemma map_of_snoc_other: "i \<noteq> j \<Longrightarrow> map_of (ps @ [(j, v)]) i = map_of ps i"
  by (induction ps) auto

lemma removeRunningTask_other_id:
  "map_of (runningTasks q) k = Some \<lparr>expiration = ex, runningId = i\<rparr> \<Longrightarrow>
   k' \<noteq> k \<or> j \<noteq> i \<Longrightarrow>
   map_of (runningTasks (removeRunningTask k' j q)) k = Some \<lparr>expiration = ex, runningId = i\<rparr>"
  by (auto simp: removeRunningTask_eq map_of_objectDelete split: option.splits)

lemma keyHeld_removeRunningTask:
  "keyHeld k i ex q \<Longrightarrow> k' \<noteq> k \<or> j \<noteq> i \<Longrightarrow> keyHeld k i ex (removeRunningTask k' j q)"
  using removeRunningTask_other_id [of q k ex i k' j]
  by (simp add: keyHeld_def removeRunningTask_fields)

lemma mayRun_held:
  assumes "keyHeld k i ex q" and "\<forall>e. ex = Some e \<longrightarrow> (\<forall>n. 0 < e - clock n)"
    and "mayRun clock t q = (ok, q1)"
  shows "keyHeld k i ex q1" and "ok \<longrightarrow> itemKey t \<noteq> k"
proof -
  note mf = mayRun_fields [OF assms(3)]
  show "keyHeld k i ex q1" using assms(1) mf by (simp add: keyHeld_def)
  show "ok \<longrightarrow> itemKey t \<noteq> k"
  proof (intro impI notI)
    assume ok and eq: "itemKey t = k"
    from assms(1) eq have e: "map_of (runningTasks q) (itemKey t) =
        Some \<lparr>expiration = ex, runningId = i\<rparr>"
      by (simp add: keyHeld_def)
    show False
    proof (cases ex)
      case None
      with e assms(3) \<open>ok\<close> show False by (simp add: mayRun_eq)
    next
      case (Some x)
      with assms(2) have "0 < x - clock (clockReads q)" by simp
      with Some e assms(3) \<open>ok\<close> show False
        by (simp add: mayRun_eq dateNow_def)
    qed
  qed
qed

lemma callTask_held:
  assumes held: "keyHeld k i ex q1" and other: "itemKey t \<noteq> k"
    and res: "callTask clock behaviour t hadNone q1 = (uncaught, q')"
  shows "keyHeld k i ex q'" and "startsOthers k q1 q'"
proof -
  obtain j q2 where reg: "registerRun clock t q1 = (j, q2)"
    by (cases "registerRun clock t q1")
  note rf = registerRun_fields [OF reg]
  from rf(3) obtain ex' where tab: "runningTasks q2 =
      objectSet (runningTasks q1) (itemKey t) \<lparr>expiration = ex', runningId = j\<rparr>" by blast
  from held have lt: "i < runId q1" by (simp add: keyHeld_def)
  with rf(1) have ij: "i \<noteq> j" by simp
  have held2: "keyHeld k i ex q2"
    using held other tab rf lt by (simp add: keyHeld_def map_of_objectSet)
  define called where "called = calledDuringCall (itemWrapper t) (behaviour j)"
  define threw where "threw = threwDuringCall (behaviour j)"
  define q3 where "q3 = (if called then removeRunningTask (itemKey t) j q2 else q2)"
  define q4 where "q4 = (if threw then removeRunningTask (itemKey t) j q3 else q3)"
  have held3: "keyHeld k i ex q3"
    using held2 keyHeld_removeRunningTask [OF held2, of "itemKey t" j] other
    by (simp add: q3_def)
  have held4: "keyHeld k i ex q4"
    using held3 keyHeld_removeRunningTask [OF held3, of "itemKey t" j] other
    by (simp add: q4_def)
  have st3: "started q3 = started q1 @ [(j, t)]"
    using rf by (simp add: q3_def removeRunningTask_fields)
  have st4: "started q4 = started q1 @ [(j, t)]"
    using st3 by (simp add: q4_def removeRunningTask_fields)
  have out: "(uncaught, q') =
      (if threw \<and> \<not> catchErrors q3 then (True, q3)
       else (False, q4\<lparr>queueSize := queueSize q4 - 1,
                       runCount := (if hadNone then runCount q4 + 1 else runCount q4),
                       pending := (if called \<or> threw then pending q4
                                   else pending q4 @ [(j, t)])\<rparr>))"
    using res reg unfolding callTask_def Let_def q3_def q4_def called_def threw_def
    by simp
  have held5: "keyHeld k i ex (q4\<lparr>queueSize := a, runCount := b,
      pending := (if called \<or> threw then pending q4 else pending q4 @ [(j, t)])\<rparr>)" for a b
    using held4 ij by (auto simp: keyHeld_def map_of_snoc_other simp del: map_of_append)
  show "keyHeld k i ex q'"
    using out held3 held5 by (auto split: if_splits)
  show "startsOthers k q1 q'"
    using out st3 st4 other by (auto simp: startsOthers_def split: if_splits)
qed

lemma runLoop_held:
  assumes clock: "\<forall>e. ex = Some e \<longrightarrow> (\<forall>n. 0 < e - clock n)"
  shows "keyHeld k i ex q \<Longrightarrow>
     keyHeld k i ex (runLoop clock behaviour todo unrun ranNow q) \<and>
     startsOthers k q (runLoop clock behaviour todo unrun ranNow q)"
proof (induction todo arbitrary: unrun ranNow q)
  case Nil
  then show ?case by (simp add: keyHeld_def startsOthers_def)
next
  case (Cons t rest)
  show ?case
  proof (cases "of_int (runCount q) < maxConcurrency q \<and> \<not> shutdownImmediately q")
    case False
    with Cons.prems show ?thesis
      by (auto simp: keyHeld_def startsOthers_def)
  next
    case True
    obtain ok q1 where mr: "mayRun clock t q = (ok, q1)"
      by (cases "mayRun clock t q")
    note mf = mayRun_fields [OF mr]
    note mh = mayRun_held [OF Cons.prems clock mr]
    have s1: "startsOthers k q q1" using mf by (simp add: startsOthers_refl)
    show ?thesis
    proof (cases ok)
      case False
      with True mr have "runLoop clock behaviour (t # rest) unrun ranNow q =
          runLoop clock behaviour rest (unrun @ [t]) [] q1" by simp
      with Cons.IH [OF mh(1), of "unrun @ [t]" "[]"] s1 show ?thesis
        by (auto intro: startsOthers_trans)
    next
      case ok: True
      with mh have other: "itemKey t \<noteq> k" by simp
      obtain uncaught q' where ct:
        "callTask clock behaviour t (objectGet (runningTasks q) (itemKey t) = Undefined) q1 =
           (uncaught, q')"
        by (cases "callTask clock behaviour t (objectGet (runningTasks q) (itemKey t) = Undefined) q1")
      note ch = callTask_held [OF mh(1) other ct]
      have s2: "startsOthers k q q'" using s1 ch(2) by (rule startsOthers_trans)
      show ?thesis
      proof (cases uncaught)
        case True
        have "runLoop clock behaviour (t # rest) unrun ranNow q =
            q'\<lparr>queueItems := (if unrun = [] then t # rest else unrun @ ranNow @ t # rest),
               runScheduled := False\<rparr>"
          using \<open>of_int (runCount q) < maxConcurrency q \<and> \<not> shutdownImmediately q\<close> mr ok ct True
          by simp
        with ch s2 show ?thesis by (simp add: keyHeld_def startsOthers_def)
      next
        case False
        have step: "runLoop clock behaviour (t # rest) unrun ranNow q =
            runLoop clock behaviour rest unrun (ranNow @ [t]) q'"
          using True mr ok ct False by simp
        from Cons.IH [OF ch(1), of unrun "ranNow @ [t]"] s2 show ?thesis
          unfolding step by (auto intro: startsOthers_trans)
      qed
    qed
  qed
qed

lemma reapKeys_held:
  assumes "\<forall>e. ex = Some e \<longrightarrow> 0 < e - currentTime"
  shows "keyHeld k i ex q \<Longrightarrow>
     keyHeld k i ex (reapKeys currentTime ks q) \<and>
     started (reapKeys currentTime ks q) = started q"
proof (induction ks arbitrary: q)
  case Nil
  then show ?case by simp
next
  case (Cons k' ks)
  define q1 where "q1 =
       (case map_of (runningTasks q) k' of
          None \<Rightarrow> q
        | Some runningTask \<Rightarrow>
            (case expiration runningTask of
               None \<Rightarrow> q
             | Some ex' \<Rightarrow>
                 if ex' - currentTime \<le> 0 then removeRunningTask k' (runningId runningTask) q
                 else q))"
  have step: "reapKeys currentTime (k' # ks) q = reapKeys currentTime ks q1"
    unfolding q1_def by (rule reapKeys_Cons)
  have "keyHeld k i ex q1 \<and> started q1 = started q"
  proof (cases "k' = k")
    case True
    from Cons.prems have "map_of (runningTasks q) k = Some \<lparr>expiration = ex, runningId = i\<rparr>"
      by (simp add: keyHeld_def)
    with True assms have "q1 = q"
      by (cases ex) (auto simp: q1_def)
    with Cons.prems show ?thesis by simp
  next
    case False
    with Cons.prems keyHeld_removeRunningTask [OF Cons.prems, of k']
    show ?thesis
      by (simp add: q1_def removeRunningTask_fields split: option.splits)
  qed
  with Cons.IH [of q1] show ?case unfolding step by simp
qed

lemma queueStep_held:
  assumes held: "keyHeld k i ex q"
    and clock: "\<forall>e. ex = Some e \<longrightarrow> (\<forall>n. 0 < e - clock n)"
    and ev: "ev \<noteq> PromiseSettles i True"
  shows "keyHeld k i ex (queueStep clock behaviour q ev) \<and>
         startsOthers k q (queueStep clock behaviour q ev)"
proof -
  have pend_other: "keyHeld k i ex (q\<lparr>pending := filter (\<lambda>p. fst p \<noteq> j) (pending q)\<rparr>)" for j
    using held
    by (cases "i = j") (simp_all add: keyHeld_def map_of_filter_other map_of_filter_same)
  have removal: "keyHeld k i ex
      (removeRunningTask k' j (q\<lparr>pending := filter (\<lambda>p. fst p \<noteq> j) (pending q)\<rparr>))"
    if "k' \<noteq> k \<or> j \<noteq> i" for k' j
    using keyHeld_removeRunningTask [OF pend_other that] .
  have heldT: "itemWrapper t = ThenOnly" if "map_of (pending q) i = Some t" for t
    using held that by (simp add: keyHeld_def)
  show ?thesis
  proof (cases ev)
    case (Submit k' t timeoutArg)
    with held show ?thesis
      by (simp add: submit_def submitWrapped_def keyHeld_def startsOthers_def)
  next
    case (SubmitPromiseTask k' t timeoutArg)
    with held show ?thesis
      by (simp add: submitPromiseTask_def submitWrapped_def keyHeld_def startsOthers_def)
  next
    case RunFires
    with held runLoop_held [OF clock held, of behaviour "queueItems q" "[]" "[]"]
    show ?thesis
      by (simp add: runFires_def startsOthers_def)
  next
    case ReapFires
    show ?thesis
    proof (cases "reapScheduled q")
      case True
      let ?q1 = "q\<lparr>clockReads := Suc (clockReads q)\<rparr>"
      have h1: "keyHeld k i ex ?q1" using held by (simp add: keyHeld_def)
      have c1: "\<forall>e. ex = Some e \<longrightarrow> 0 < e - clock (clockReads q)" using clock by simp
      from reapKeys_held [OF c1 h1, of "map fst (runningTasks q)"] True ReapFires
      show ?thesis
        by (simp add: reapFires_def dateNow_def Let_def keyHeld_def startsOthers_def)
    next
      case False
      with held ReapFires show ?thesis by (simp add: reapFires_def startsOthers_def)
    qed
  next
    case (CompletesLater j)
    show ?thesis
    proof (cases "map_of (pending q) j")
      case None
      with held CompletesLater show ?thesis
        by (simp add: completesLater_def startsOthers_def)
    next
      case (Some t)
      show ?thesis
      proof (cases "itemWrapper t = Direct")
        case False
        with Some held CompletesLater show ?thesis
          by (simp add: completesLater_def startsOthers_def)
      next
        case True
        with heldT [of t] Some have "j \<noteq> i" by auto
        with removal [of "itemKey t" j] Some True CompletesLater show ?thesis
          by (simp add: completesLater_def startsOthers_def removeRunningTask_fields)
      qed
    qed
  next
    case (PromiseSettles j resolved)
    show ?thesis
    proof (cases "map_of (pending q) j")
      case None
      with held PromiseSettles show ?thesis
        by (simp add: promiseSettles_def startsOthers_def)
    next
      case (Some t)
      show ?thesis
      proof (cases "j = i")
        case True
        with ev PromiseSettles have nr: "\<not> resolved" by simp
        from True Some heldT [of t] have "itemWrapper t = ThenOnly" by simp
        with Some nr PromiseSettles pend_other [of j] show ?thesis
          by (simp add: promiseSettles_def Let_def startsOthers_def)
      next
        case False
        with removal [of "itemKey t" j] pend_other [of j] Some PromiseSettles held
        show ?thesis
          by (cases "itemWrapper t")
             (simp_all add: promiseSettles_def Let_def startsOthers_def removeRunningTask_fields)
      qed
    qed
  next
    case (Stop immediately timeoutArg)
    with held show ?thesis by (simp add: stop_def keyHeld_def startsOthers_def)
  next
    case StopTimerFires
    with held show ?thesis by (simp add: stopTimerFires_def keyHeld_def startsOthers_def)
  qed
qed

lemma queueAfter_held:
  assumes clock: "\<forall>e. ex = Some e \<longrightarrow> (\<forall>n. 0 < e - clock n)"
  shows "keyHeld k i ex q \<Longrightarrow> PromiseSettles i True \<notin> set events \<Longrightarrow>
     keyHeld k i ex (queueAfter clock behaviour q events) \<and>
     startsOthers k q (queueAfter clock behaviour q events)"
proof (induction events arbitrary: q)
  case Nil
  then show ?case by (simp add: queueAfter_def startsOthers_def)
next
  case (Cons ev events)
  from Cons.prems(2) have ne: "ev \<noteq> PromiseSettles i True"
    and rest: "PromiseSettles i True \<notin> set events" by auto
  from queueStep_held [OF Cons.prems(1) clock ne, of behaviour]
  have h: "keyHeld k i ex (queueStep clock behaviour q ev)"
    and s: "startsOthers k q (queueStep clock behaviour q ev)" by simp_all
  from Cons.IH [OF h rest] s show ?case
    by (auto simp: queueAfter_def intro: startsOthers_trans)
qed

text \<open>
  Claim C10. A promise task submitted while \<open>catchErrors\<close> is off is wrapped with \<open>then\<close>
  alone, so a rejection of its promise calls no completion callback. While such a task (run
  \<open>i\<close>) owns the entry of key \<open>k\<close> and its promise does not resolve, no event removes
  or replaces the entry and no task of key \<open>k\<close> is started: for ever when the entry has no
  expiration, and otherwise for as long as the clock reads less than the expiration, which
  only the reaper and the dispatch loop compare with the clock.
\<close>

theorem rejected_promise_task_keeps_key:
  assumes "map_of (runningTasks q) k = Some \<lparr>expiration = ex, runningId = i\<rparr>"
    and "i < runId q"
    and "map_of (pending q) i = None \<or>
         (\<exists>t. map_of (pending q) i = Some t \<and> itemWrapper t = ThenOnly)"
    and "PromiseSettles i True \<notin> set events"
    and "ex = None \<or> (\<exists>e. ex = Some e \<and> (\<forall>n. clock n < e))"
    and "q' = queueAfter clock behaviour q events"
  shows "map_of (runningTasks q') k = Some \<lparr>expiration = ex, runningId = i\<rparr> \<and>
         started q' = started q @ startedSince q q' \<and>
         (\<forall>x \<in> set (startedSince q q'). itemKey (snd x) \<noteq> k)"
proof -
  have held: "keyHeld k i ex q"
    using assms(1-3) by (auto simp: keyHeld_def)
  have clock: "\<forall>e. ex = Some e \<longrightarrow> (\<forall>n. 0 < e - clock n)"
    using assms(5) by auto
  from queueAfter_held [OF clock held assms(4), of behaviour] assms(6)
  have h: "keyHeld k i ex q'" and s: "startsOthers k q q'" by simp_all
  from s obtain new where n: "started q' = started q @ new"
    "\<forall>x \<in> set new. itemKey (snd x) \<noteq> k"
    by (auto simp: startsOthers_def)
  then have "startedSince q q' = new" by (simp add: startedSince_def)
  with n h show ?thesis by (simp add: keyHeld_def)
qed

theorem rejected_promise_task_keeps_key_witness:
  "map_of (runningTasks (queueAfter (\<lambda>n. 0) (\<lambda>i. Returns)
       (newAsyncOpQueue \<lparr>optMaxConcurrency = None, optDefaultTaskRunTimeoutMillis = None,
          optTaskReaperIntervalMillis = None, optCatchErrors = None\<rparr>)
       [SubmitPromiseTask ''k'' (1::nat) None, SubmitPromiseTask ''k'' 2 None, RunFires])) ''k''
     = Some \<lparr>expiration = None, runningId = 0\<rparr> \<and>
   map_of (runningTasks (queueAfter (\<lambda>n. 0) (\<lambda>i. Returns)
       (queueAfter (\<lambda>n. 0) (\<lambda>i. Returns)
          (newAsyncOpQueue \<lparr>optMaxConcurrency = None, optDefaultTaskRunTimeoutMillis = None,
             optTaskReaperIntervalMillis = None, optCatchErrors = None\<rparr>)
          [SubmitPromiseTask ''k'' (1::nat) None, SubmitPromiseTask ''k'' 2 None, RunFires])
       [PromiseSettles 0 False, RunFires, ReapFires, RunFires])) ''k''
     = Some \<lparr>expiration = None, runningId = 0\<rparr> \<and>
   map (\<lambda>x. itemTask (snd x)) (started (queueAfter (\<lambda>n. 0) (\<lambda>i. Returns)
       (queueAfter (\<lambda>n. 0) (\<lambda>i. Returns)
          (newAsyncOpQueue \<lparr>optMaxConcurrency = None, optDefaultTaskRunTimeoutMillis = None,
             optTaskReaperIntervalMillis = None, optCatchErrors = None\<rparr>)
          [SubmitPromiseTask ''k'' (1::nat) None, SubmitPromiseTask ''k'' 2 None, RunFires])
       [PromiseSettles 0 False, RunFires, ReapFires, RunFires])) = [1]"
proof -
  let ?q0 = "newAsyncOpQueue \<lparr>optMaxConcurrency = None, optDefaultTaskRunTimeoutMillis = None,
          optTaskReaperIntervalMillis = None, optCatchErrors = None\<rparr> :: nat AsyncOpQueue"
  let ?q = "queueAfter (\<lambda>n. 0) (\<lambda>i. Returns) ?q0
       [SubmitPromiseTask ''k'' (1::nat) None, SubmitPromiseTask ''k'' 2 None, RunFires]"
  let ?evs = "[PromiseSettles 0 False, RunFires, ReapFires, RunFires] :: nat QueueEvent list"
  let ?q' = "queueAfter (\<lambda>n. 0) (\<lambda>i. Returns) ?q ?evs"
  have h1: "map_of (runningTasks ?q) ''k'' = Some \<lparr>expiration = None, runningId = 0\<rparr>"
    by code_simp
  have h2: "0 < runId ?q"
    by code_simp
  have h3: "map_of (pending ?q) 0 = None \<or>
         (\<exists>t. map_of (pending ?q) 0 = Some t \<and> itemWrapper t = ThenOnly)"
  proof -
    have "map_of (pending ?q) 0 = Some \<lparr>itemKey = ''k'', itemTask = 1, itemWrapper = ThenOnly,
        runTimeout = None\<rparr>"
      by code_simp
    then show ?thesis by simp
  qed
  have h4: "PromiseSettles 0 True \<notin> set ?evs"
    by simp
  have h5: "(None :: int option) = None \<or> (\<exists>e. None = Some e \<and> (\<forall>n. (\<lambda>n. 0) n < e))"
    by simp
  have st: "map (\<lambda>x. itemTask (snd x)) (started ?q') = [1]"
    by code_simp
  from rejected_promise_task_keeps_key [OF h1 h2 h3 h4 h5 refl, of "\<lambda>i. Returns"]
  have "map_of (runningTasks ?q') ''k'' = Some \<lparr>expiration = None, runningId = 0\<rparr>"
    by simp
  with h1 st show ?thesis by simp
qed

end
